theory Spec2Isabelle
  imports Main
begin

section \<open>Strings\<close>

text \<open>
  A Python \<open>str\<close> is modelled as a \<open>string\<close>: a list of characters, each a code point
  below 256. Two tables of the runtime are used by the program and are not part of the
  repository: the characters matched by \<open>\s\<close> in a pattern of the \<open>regex\<close> module, and
  the characters removed by \<open>str.strip()\<close>. Both are given here for code points below 256.
\<close>

definition newline :: char where
  "newline = CHR 0x0A"

definition regex_space :: "char \<Rightarrow> bool" where
  \<comment> \<open>the class \<open>\s\<close>: tab, line feed, vertical tab, form feed, carriage return, space,
      next line, no-break space\<close>
  "regex_space c = (c \<in> set [CHR 0x09, CHR 0x0A, CHR 0x0B, CHR 0x0C, CHR 0x0D, CHR 0x20,
                               CHR 0x85, CHR 0xA0])"

definition str_space :: "char \<Rightarrow> bool" where
  \<comment> \<open>\<open>str.isspace\<close> on one character, which is what \<open>str.strip()\<close> removes\<close>
  "str_space c = (c \<in> set [CHR 0x09, CHR 0x0A, CHR 0x0B, CHR 0x0C, CHR 0x0D,
                             CHR 0x1C, CHR 0x1D, CHR 0x1E, CHR 0x1F, CHR 0x20,
                             CHR 0x85, CHR 0xA0])"

definition strip :: "string \<Rightarrow> string" where
  "strip s = rev (dropWhile str_space (rev (dropWhile str_space s)))"

text \<open>The pattern element \<open>.\<close> matches any character but a line feed; \<open>$\<close> matches at the
  end of the string and just before a line feed that ends the string.\<close>

definition dot :: "char \<Rightarrow> bool" where
  "dot c = (c \<noteq> newline)"

definition at_end :: "string \<Rightarrow> bool" where
  "at_end s = (s = [] \<or> s = [newline])"

section \<open>indentation\_tree.py\<close>

subsection \<open>\<open>INDENT_REGEX_PATTERN\<close>\<close>

text \<open>
  \<^verbatim>\<open>^(?P<indent>\s*)(?P<text>.*)$\<close>, matched from the start of the line. Both groups are
  greedy, and the matcher backtracks into the longer alternative first.
  \<open>match_text s\<close> is \<^verbatim>\<open>(?P<text>.*)$\<close> at the rest \<open>s\<close> of the line: the longest run of
  characters other than line feed, and only that run can be followed by the end.
  \<open>match_indent w s\<close> is \<^verbatim>\<open>(?P<indent>\s*)\<close> having consumed \<open>w\<close>: one more whitespace
  character if the rest of the pattern then matches, the text group otherwise.
\<close>

definition match_text :: "string \<Rightarrow> string option" where
  "match_text s =
     (if at_end (dropWhile dot s) then Some (takeWhile dot s) else None)"

fun match_indent :: "string \<Rightarrow> string \<Rightarrow> (string \<times> string) option" where
  "match_indent w [] = map_option (\<lambda>t. (w, t)) (match_text [])"
| "match_indent w (c # cs) =
     (if regex_space c then
        (case match_indent (w @ [c]) cs of
           Some r \<Rightarrow> Some r
         | None \<Rightarrow> map_option (\<lambda>t. (w, t)) (match_text (c # cs)))
      else map_option (\<lambda>t. (w, t)) (match_text (c # cs)))"

definition indent_regex_match :: "string \<Rightarrow> (string \<times> string) option" where
  "indent_regex_match line = match_indent [] line"

subsection \<open>\<open>IndentationTree\<close>\<close>

text \<open>
  The nodes are objects that \<open>parse\<close> mutates after it has linked them: a node is appended
  to its parent's children when it is created and receives its own children later. They
  live in a store, a list indexed by the node's address; \<open>parse\<close> creates the sentinel
  root first, so the root is node 0 and the node of line \<open>i\<close> is node \<open>i + 1\<close>.
\<close>

datatype error = TypeError | IndexError | RecursionError

record tree_node =
  indent :: int
  node_text :: string
  node_children :: "nat list"

type_synonym tree_store = "tree_node list"

definition IndentationTree :: "int \<Rightarrow> string \<Rightarrow> tree_node" where
  "IndentationTree i t = \<lparr>indent = i, node_text = t, node_children = []\<rparr>"

text \<open>
  \<open>normalize_indentation\<close> recurses into the children. The first argument bounds the depth
  of the recursion, as the interpreter's recursion limit does; at the bound the call fails
  with \<open>RecursionError\<close>.
\<close>

fun normalize_indentation :: "nat \<Rightarrow> tree_store \<Rightarrow> nat \<Rightarrow> int \<Rightarrow> error + tree_store"
  and normalize_children :: "nat \<Rightarrow> tree_store \<Rightarrow> nat list \<Rightarrow> int \<Rightarrow> error + tree_store"
where
  "normalize_indentation 0 T n current_indent = Inl RecursionError"
| "normalize_indentation (Suc d) T n current_indent =
     normalize_children d (T[n := (T ! n)\<lparr>indent := current_indent\<rparr>]) (node_children (T ! n))
       (current_indent + 1)"
| "normalize_children d T [] i = Inr T"
| "normalize_children d T (c # cs) i =
     (case normalize_indentation d T c i of
        Inl e \<Rightarrow> Inl e
      | Inr T' \<Rightarrow> normalize_children d T' cs i)"

text \<open>
  The stack of \<open>parse\<close> is a list of addresses with the top of the stack (\<open>stack[-1]\<close>) at
  the head. \<open>pop_stack\<close> is the \<open>while\<close> loop; reading \<open>stack[-1]\<close> of an empty stack
  raises \<open>IndexError\<close>.
\<close>

fun pop_stack :: "tree_store \<Rightarrow> int \<Rightarrow> nat list \<Rightarrow> error + nat list" where
  "pop_stack T i [] = Inl IndexError"
| "pop_stack T i (tos # stack) =
     (if indent (T ! tos) \<ge> i then pop_stack T i stack else Inr (tos # stack))"

text \<open>One round of the \<open>for\<close> loop; a line the pattern does not match makes \<open>matches\<close>
  \<open>None\<close>, and subscripting it raises \<open>TypeError\<close>.\<close>

definition parse_line :: "string \<Rightarrow> tree_store \<times> nat list \<Rightarrow> error + tree_store \<times> nat list" where
  "parse_line line st =
     (case st of (T, stack) \<Rightarrow>
      (case indent_regex_match line of
         None \<Rightarrow> Inl TypeError
       | Some (ws, txt) \<Rightarrow>
           (let i = int (length ws);
                tree = IndentationTree i txt
            in case pop_stack T i stack of
                 Inl e \<Rightarrow> Inl e
               | Inr stack' \<Rightarrow>
                   (case stack' of
                      [] \<Rightarrow> Inl IndexError
                    | tos # _ \<Rightarrow>
                        (let new = length T;
                             T' = T[tos := (T ! tos)\<lparr>node_children := node_children (T ! tos) @ [new]\<rparr>]
                         in Inr (T' @ [tree], new # stack'))))))"

fun parse_lines :: "string list \<Rightarrow> tree_store \<times> nat list \<Rightarrow> error + tree_store \<times> nat list" where
  "parse_lines [] st = Inr st"
| "parse_lines (line # lines) st =
     (case parse_line line st of
        Inl e \<Rightarrow> Inl e
      | Inr st' \<Rightarrow> parse_lines lines st')"

text \<open>\<open>IndentationTree.parse\<close>: the result is the store, whose node 0 is the root.\<close>

definition IndentationTree_parse :: "nat \<Rightarrow> string list \<Rightarrow> error + tree_store" where
  "IndentationTree_parse d lines =
     (case parse_lines lines ([IndentationTree (- 1) []], [0]) of
        Inl e \<Rightarrow> Inl e
      | Inr (T, stack) \<Rightarrow> normalize_indentation d T 0 (- 1))"

section \<open>property\_bag.py\<close>

subsection \<open>Dictionaries\<close>

text \<open>
  A \<open>dict\<close> keeps its keys in the order of their first insertion; storing under a key
  that is present replaces the value and leaves the position.
\<close>

type_synonym ('k, 'v) dict = "('k \<times> 'v) list"

fun dict_set :: "'k \<Rightarrow> 'v \<Rightarrow> ('k, 'v) dict \<Rightarrow> ('k, 'v) dict" where
  "dict_set k v [] = [(k, v)]"
| "dict_set k v ((k', v') # kvs) =
     (if k' = k then (k, v) # kvs else (k', v') # dict_set k v kvs)"

definition dict_in :: "'k \<Rightarrow> ('k, 'v) dict \<Rightarrow> bool" where
  "dict_in k kvs = (map_of kvs k \<noteq> None)"

text \<open>\<open>for name, child in items: properties[name] = child\<close>\<close>

fun dict_set_all :: "('k, 'v) dict \<Rightarrow> ('k, 'v) dict \<Rightarrow> ('k, 'v) dict" where
  "dict_set_all [] properties = properties"
| "dict_set_all ((k, v) # items) properties = dict_set_all items (dict_set k v properties)"

subsection \<open>\<open>functools.lru_cache\<close>\<close>

text \<open>
  A bounded cache is the list of its entries, the most recently used first. A hit moves the
  entry to the front. After a miss the wrapped function runs; if the key has been stored
  meanwhile (by a recursive call) the cache is left alone, otherwise the entry goes to the
  front, and the least recently used entry is dropped when the cache is full.
\<close>

type_synonym ('k, 'v) lru = "('k \<times> 'v) list"

definition lru_hit :: "'k \<Rightarrow> 'v \<Rightarrow> ('k, 'v) lru \<Rightarrow> ('k, 'v) lru" where
  "lru_hit k v cache = (k, v) # filter (\<lambda>kv. fst kv \<noteq> k) cache"

definition lru_store :: "nat \<Rightarrow> 'k \<Rightarrow> 'v \<Rightarrow> ('k, 'v) lru \<Rightarrow> ('k, 'v) lru" where
  "lru_store maxsize k v cache =
     (if map_of cache k \<noteq> None then cache
      else if length cache < maxsize then (k, v) # cache
      else (k, v) # butlast cache)"

subsection \<open>\<open>PropertyBag\<close>\<close>

text \<open>
  Bags are objects shared by reference (a bag is the base of many bags and the child of
  another) and mutated by \<open>add\<close>, so they live in a heap: a list indexed by address, to
  which the constructor appends. The two \<open>lru_cache\<close> wrappers belong to the class, one
  cache for all bags, with the bag (by identity) and the item as key. The logger's
  warnings are kept as the pairs of base name and bag name they report.
\<close>

record property_bag =
  bag_name :: string
  bag_value :: string
  bases :: "nat list"
  children :: "(string, nat) dict"

record state =
  heap :: "property_bag list"
  contains_cache :: "(nat \<times> string, bool) lru"
  getitem_cache :: "(nat \<times> string, nat option) lru"
  warnings :: "(string \<times> string) list"

definition PropertyBag :: "string \<Rightarrow> string \<Rightarrow> nat list \<Rightarrow> state \<Rightarrow> nat \<times> state" where
  "PropertyBag n v base_props s =
     (length (heap s),
      s\<lparr>heap := heap s @ [\<lparr>bag_name = n, bag_value = v, bases = base_props, children = []\<rparr>]\<rparr>)"

definition add :: "nat \<Rightarrow> nat \<Rightarrow> state \<Rightarrow> state" where
  "add self prop s =
     s\<lparr>heap := (heap s)[self := (heap s ! self)
        \<lparr>children := dict_set (bag_name (heap s ! prop)) prop (children (heap s ! self))\<rparr>]\<rparr>"

text \<open>
  \<open>flatten_properties\<close> recurses through the bases and is not cached. The first argument
  bounds the depth of the recursion (the interpreter's recursion limit), here and in the
  functions below.
\<close>

fun flatten_properties :: "nat \<Rightarrow> property_bag list \<Rightarrow> nat \<Rightarrow> error + (string, nat) dict"
  and flatten_bases ::
    "nat \<Rightarrow> property_bag list \<Rightarrow> nat list \<Rightarrow> (string, nat) dict \<Rightarrow> error + (string, nat) dict"
where
  "flatten_properties 0 h self = Inl RecursionError"
| "flatten_properties (Suc d) h self =
     (case flatten_bases d h (bases (h ! self)) [] of
        Inl e \<Rightarrow> Inl e
      | Inr properties \<Rightarrow> Inr (dict_set_all (children (h ! self)) properties))"
| "flatten_bases d h [] properties = Inr properties"
| "flatten_bases d h (base_prop # bs) properties =
     (case flatten_properties d h base_prop of
        Inl e \<Rightarrow> Inl e
      | Inr inherited \<Rightarrow> flatten_bases d h bs (dict_set_all inherited properties))"

definition count :: "nat \<Rightarrow> state \<Rightarrow> nat \<Rightarrow> error + nat" where
  "count d s self = map_sum id length (flatten_properties d (heap s) self)"

text \<open>\<open>__contains__\<close> under \<open>lru_cache(maxsize=16)\<close>. A hit does not run the body.\<close>

definition contains :: "nat \<Rightarrow> state \<Rightarrow> nat \<Rightarrow> string \<Rightarrow> error + bool \<times> state" where
  "contains d s self item =
     (case map_of (contains_cache s) (self, item) of
        Some r \<Rightarrow> Inr (r, s\<lparr>contains_cache := lru_hit (self, item) r (contains_cache s)\<rparr>)
      | None \<Rightarrow>
          (case flatten_properties d (heap s) self of
             Inl e \<Rightarrow> Inl e
           | Inr properties \<Rightarrow>
               (let r = dict_in item properties
                in Inr (r, s\<lparr>contains_cache := lru_store 16 (self, item) r (contains_cache s)\<rparr>))))"

text \<open>
  \<open>__getitem__\<close> under \<open>lru_cache(maxsize=32)\<close>; \<open>getitem_bases\<close> is its loop over
  \<open>self._bases[::-1]\<close>, which asks the cached \<open>__contains__\<close> of each base and returns
  the cached \<open>__getitem__\<close> of the first that answers true.
\<close>

fun getitem :: "nat \<Rightarrow> state \<Rightarrow> nat \<Rightarrow> string \<Rightarrow> error + nat option \<times> state"
  and getitem_bases :: "nat \<Rightarrow> state \<Rightarrow> nat list \<Rightarrow> string \<Rightarrow> error + nat option \<times> state"
where
  "getitem 0 s self item =
     (case map_of (getitem_cache s) (self, item) of
        Some r \<Rightarrow> Inr (r, s\<lparr>getitem_cache := lru_hit (self, item) r (getitem_cache s)\<rparr>)
      | None \<Rightarrow> Inl RecursionError)"
| "getitem (Suc d) s self item =
     (case map_of (getitem_cache s) (self, item) of
        Some r \<Rightarrow> Inr (r, s\<lparr>getitem_cache := lru_hit (self, item) r (getitem_cache s)\<rparr>)
      | None \<Rightarrow>
          (case (case map_of (children (heap s ! self)) item of
                   Some child \<Rightarrow> Inr (Some child, s)
                 | None \<Rightarrow> getitem_bases d s (rev (bases (heap s ! self))) item) of
             Inl e \<Rightarrow> Inl e
           | Inr (r, s') \<Rightarrow>
               Inr (r, s'\<lparr>getitem_cache := lru_store 32 (self, item) r (getitem_cache s')\<rparr>)))"
| "getitem_bases d s [] item = Inr (None, s)"
| "getitem_bases d s (base # bs) item =
     (case contains d s base item of
        Inl e \<Rightarrow> Inl e
      | Inr (found, s') \<Rightarrow>
          (if found then getitem d s' base item else getitem_bases d s' bs item))"

section \<open>property\_bag\_parser.py\<close>

subsection \<open>\<open>LINE_REGEX_PATTERN\<close>\<close>

text \<open>
  The pattern, compiled verbose (white space and comments in it are dropped) and matched
  from the start of the text:
  \<^verbatim>\<open>^(?P<abstract>::)?(?P<name>..*?)((?P<equals>=)(?P<value>..*?)?|(::(?P<inherits>.*?))*|)$\<close>
  The functions follow the backtracking matcher: a greedy element tries to match before it
  tries to be skipped, a lazy one tries the rest of the pattern before it takes one more
  character, alternatives are tried from left to right.
\<close>

record line_match =
  abstract :: bool
  name :: string
  equals :: bool
  "value" :: "string option"
  inherits :: "string list"

text \<open>\<^verbatim>\<open>.*?$\<close> of the value group, \<open>acc\<close> consumed so far.\<close>

fun value_lazy :: "string \<Rightarrow> string \<Rightarrow> string option" where
  "value_lazy acc [] = Some acc"
| "value_lazy acc (c # cs) =
     (if at_end (c # cs) then Some acc
      else if dot c then value_lazy (acc @ [c]) cs else None)"

text \<open>\<^verbatim>\<open>(?P<value>..*?)?$\<close> after the equals sign: the group if it matches, the end
  of the text if it does not.\<close>

definition match_value :: "string \<Rightarrow> string option option" where
  "match_value s =
     (case (case s of [] \<Rightarrow> None
            | c # cs \<Rightarrow> if dot c then value_lazy [c] cs else None) of
        Some v \<Rightarrow> Some (Some v)
      | None \<Rightarrow> if at_end s then Some None else None)"

text \<open>
  \<^verbatim>\<open>(::(?P<inherits>.*?))*$\<close>: \<open>match_inherits s\<close> is the star at \<open>s\<close>, one more
  round if the text goes on with \<open>::\<close> and the rest then matches, the end of the text
  otherwise; \<open>inherit_lazy acc s\<close> is the group inside a round, \<open>acc\<close> consumed so far.
  The result is the list of captures of the group.
\<close>

function match_inherits :: "string \<Rightarrow> string list option"
  and inherit_lazy :: "string \<Rightarrow> string \<Rightarrow> string list option"
where
  "match_inherits s =
     (case (case s of
              c1 # c2 # r \<Rightarrow>
                if c1 = CHR '':'' \<and> c2 = CHR '':'' then inherit_lazy [] r else None
            | _ \<Rightarrow> None) of
        Some caps \<Rightarrow> Some caps
      | None \<Rightarrow> if at_end s then Some [] else None)"
| "inherit_lazy acc s =
     (case match_inherits s of
        Some caps \<Rightarrow> Some (acc # caps)
      | None \<Rightarrow>
          (case s of
             [] \<Rightarrow> None
           | c # cs \<Rightarrow> if dot c then inherit_lazy (acc @ [c]) cs else None))"
  by pat_completeness auto
termination
  by (relation "measure (\<lambda>x. case x of Inl s \<Rightarrow> 2 * length s
                                     | Inr (acc, s) \<Rightarrow> 2 * length s + 1)") auto

text \<open>The three alternatives after the name, at the rest \<open>s\<close> of the text. The result is
  the equals group, the value group and the captures of the inherits group.\<close>

definition match_tail :: "string \<Rightarrow> (bool \<times> string option \<times> string list) option" where
  "match_tail s =
     (case (case s of
              [] \<Rightarrow> None
            | c # cs \<Rightarrow> if c = CHR ''='' then match_value cs else None) of
        Some v \<Rightarrow> Some (True, v, [])
      | None \<Rightarrow>
          (case match_inherits s of
             Some caps \<Rightarrow> Some (False, None, caps)
           | None \<Rightarrow> if at_end s then Some (False, None, []) else None))"

text \<open>\<^verbatim>\<open>.*?\<close> of the name group, \<open>acc\<close> consumed so far, and the group itself.\<close>

fun name_lazy :: "string \<Rightarrow> string \<Rightarrow> (string \<times> bool \<times> string option \<times> string list) option" where
  "name_lazy acc [] = map_option (\<lambda>t. (acc, t)) (match_tail [])"
| "name_lazy acc (c # cs) =
     (case match_tail (c # cs) of
        Some t \<Rightarrow> Some (acc, t)
      | None \<Rightarrow> if dot c then name_lazy (acc @ [c]) cs else None)"

definition match_name :: "string \<Rightarrow> (string \<times> bool \<times> string option \<times> string list) option" where
  "match_name s =
     (case s of [] \<Rightarrow> None | c # cs \<Rightarrow> if dot c then name_lazy [c] cs else None)"

definition mk_match ::
  "bool \<Rightarrow> string \<times> bool \<times> string option \<times> string list \<Rightarrow> line_match" where
  "mk_match a r =
     (case r of (n, e, v, caps) \<Rightarrow>
        \<lparr>abstract = a, name = n, equals = e, value = v, inherits = caps\<rparr>)"

definition line_regex_match :: "string \<Rightarrow> line_match option" where
  "line_regex_match s =
     (case (case s of
              c1 # c2 # r \<Rightarrow>
                if c1 = CHR '':'' \<and> c2 = CHR '':''
                then map_option (mk_match True) (match_name r) else None
            | _ \<Rightarrow> None) of
        Some m \<Rightarrow> Some m
      | None \<Rightarrow> map_option (mk_match False) (match_name s))"

subsection \<open>\<open>PropertyBagParser\<close>\<close>

text \<open>\<open>str(n)\<close> of a count.\<close>

fun str_of_nat :: "nat \<Rightarrow> string" where
  "str_of_nat n =
     (if n < 10 then [char_of (48 + n)]
      else str_of_nat (n div 10) @ [char_of (48 + n mod 10)])"

text \<open>
  The stacks \<open>parents\<close> and \<open>abstract_props\<close> are lists of addresses with the top
  (\<open>parents[-1]\<close>) at the head, so that the loops over \<open>parents[::-1]\<close> and
  \<open>abstract_props[::-1]\<close> run from the head. \<open>find_base\<close> is either loop: the first bag
  of the stack whose cached \<open>__contains__\<close> answers true ends the loop with the result of
  its cached \<open>__getitem__\<close>.
\<close>

fun find_base :: "nat \<Rightarrow> state \<Rightarrow> nat list \<Rightarrow> string \<Rightarrow> error + nat option \<times> state" where
  "find_base d s [] base_name = Inr (None, s)"
| "find_base d s (parent # ps) base_name =
     (case contains d s parent base_name of
        Inl e \<Rightarrow> Inl e
      | Inr (found, s') \<Rightarrow>
          (if found then getitem d s' parent base_name else find_base d s' ps base_name))"

text \<open>The body of \<open>for base_name in inherits\<close> up to the test of \<open>base_prop\<close>: the
  concrete stack, and the abstract one if that gave nothing.\<close>

definition resolve_base ::
  "nat \<Rightarrow> state \<Rightarrow> nat list \<Rightarrow> nat list \<Rightarrow> string \<Rightarrow> error + nat option \<times> state" where
  "resolve_base d s parents abstract_props base_name =
     (case find_base d s parents base_name of
        Inl e \<Rightarrow> Inl e
      | Inr (Some base_prop, s') \<Rightarrow> Inr (Some base_prop, s')
      | Inr (None, s') \<Rightarrow> find_base d s' abstract_props base_name)"

definition log_warning :: "string \<Rightarrow> string \<Rightarrow> state \<Rightarrow> state" where
  "log_warning base_name nm s = s\<lparr>warnings := warnings s @ [(base_name, nm)]\<rparr>"

text \<open>\<open>for base_name in inherits\<close>, with the list \<open>bases\<close> built so far.\<close>

fun resolve_bases ::
  "nat \<Rightarrow> state \<Rightarrow> nat list \<Rightarrow> nat list \<Rightarrow> string \<Rightarrow> string list \<Rightarrow> nat list
     \<Rightarrow> error + nat list \<times> state" where
  "resolve_bases d s parents abstract_props nm [] bs = Inr (bs, s)"
| "resolve_bases d s parents abstract_props nm (base_name # rest) bs =
     (case resolve_base d s parents abstract_props base_name of
        Inl e \<Rightarrow> Inl e
      | Inr (Some base_prop, s') \<Rightarrow>
          resolve_bases d s' parents abstract_props nm rest (bs @ [base_prop])
      | Inr (None, s') \<Rightarrow>
          resolve_bases d (log_warning base_name nm s') parents abstract_props nm rest bs)"

text \<open>The captures of the inherits group, stripped, an empty one replaced by the
  declaration's name.\<close>

definition inherit_names :: "string \<Rightarrow> string list \<Rightarrow> string list" where
  "inherit_names nm caps =
     map (\<lambda>inherit. let inherit_name = strip inherit
                     in if inherit_name = [] then nm else inherit_name) caps"

text \<open>The loop of a multi-line text property over the texts of \<open>child.children\<close>.\<close>

fun join_text :: "string \<Rightarrow> string list \<Rightarrow> string" where
  "join_text v [] = v"
| "join_text v (t # ts) = join_text ((if v \<noteq> [] then v @ '' '' else v) @ t) ts"

text \<open>\<open>matches['name'].strip() or str(parents[-1].count)\<close>\<close>

definition declared_name :: "nat \<Rightarrow> state \<Rightarrow> nat \<Rightarrow> line_match \<Rightarrow> error + string" where
  "declared_name d s parent_prop matches =
     (if strip (name matches) \<noteq> [] then Inr (strip (name matches))
      else map_sum id str_of_nat (count d s parent_prop))"

text \<open>
  The body of the loop of \<open>_parse_tree\<close> for one child, up to the point where the new
  bag has been added to its group. The result names the new bag when it is a collection,
  which \<open>_parse_tree\<close> then descends into.
\<close>

definition parse_declaration ::
  "nat \<Rightarrow> tree_store \<Rightarrow> nat \<Rightarrow> nat list \<Rightarrow> nat list \<Rightarrow> state \<Rightarrow> error + nat option \<times> state" where
  "parse_declaration d T child parents abstract_props s =
     (case parents of
        [] \<Rightarrow> Inl IndexError
      | parent_prop # _ \<Rightarrow>
     (case line_regex_match (node_text (T ! child)) of
        None \<Rightarrow> Inl TypeError
      | Some matches \<Rightarrow>
     (case declared_name d s parent_prop matches of
        Inl e \<Rightarrow> Inl e
      | Inr nm \<Rightarrow>
     (let is_abstract = abstract matches;
          inherit_list = inherit_names nm (inherits matches);
          has_equals = equals matches;
          has_value = (case value matches of Some v \<Rightarrow> v \<noteq> [] | None \<Rightarrow> False);
          v = (if has_value then strip (the (value matches)) else [])
      in
        if has_equals \<and> has_value then
          (case PropertyBag nm v [] s of
             (prop, s1) \<Rightarrow> Inr (None, add parent_prop prop s1))
        else if has_equals then
          (case PropertyBag nm
                  (join_text v (map (\<lambda>c. node_text (T ! c)) (node_children (T ! child)))) [] s of
             (prop, s1) \<Rightarrow> Inr (None, add parent_prop prop s1))
        else
          (case resolve_bases d s parents abstract_props nm inherit_list [] of
             Inl e \<Rightarrow> Inl e
           | Inr (bs, s1) \<Rightarrow>
          (case PropertyBag nm [] bs s1 of
             (prop, s2) \<Rightarrow>
          (case abstract_props of
             [] \<Rightarrow> Inl IndexError
           | holder # _ \<Rightarrow>
               Inr (Some prop,
                    if is_abstract then add holder prop s2 else add parent_prop prop s2))))))))"

text \<open>
  \<open>_parse_tree\<close>: \<open>parse_tree\<close> is the function and \<open>parse_children\<close> its loop over
  \<open>tree.children\<close>. The callee's \<open>append\<close> to \<open>abstract_props\<close> and its two \<open>pop\<close>s
  before it returns leave both stacks as the caller had them, so the stacks are passed
  down and not returned.
\<close>

fun parse_tree ::
    "nat \<Rightarrow> tree_store \<Rightarrow> nat \<Rightarrow> nat list \<Rightarrow> nat list \<Rightarrow> state \<Rightarrow> error + state"
  and parse_children ::
    "nat \<Rightarrow> tree_store \<Rightarrow> nat list \<Rightarrow> nat list \<Rightarrow> nat list \<Rightarrow> state \<Rightarrow> error + state"
where
  "parse_tree 0 T tree parents abstract_props s = Inl RecursionError"
| "parse_tree (Suc d) T tree parents abstract_props s =
     (case PropertyBag ''abstract'' [] [] s of
        (holder, s1) \<Rightarrow>
          parse_children d T (node_children (T ! tree)) parents (holder # abstract_props) s1)"
| "parse_children d T [] parents abstract_props s = Inr s"
| "parse_children d T (child # rest) parents abstract_props s =
     (case parse_declaration d T child parents abstract_props s of
        Inl e \<Rightarrow> Inl e
      | Inr (None, s1) \<Rightarrow> parse_children d T rest parents abstract_props s1
      | Inr (Some prop, s1) \<Rightarrow>
          (case parse_tree d T child (prop # parents) abstract_props s1 of
             Inl e \<Rightarrow> Inl e
           | Inr s2 \<Rightarrow> parse_children d T rest parents abstract_props s2))"

text \<open>\<open>PropertyBagParser.parse\<close>, on the tree at address \<open>tree\<close> of the store \<open>T\<close>, from
  the state \<open>s\<close> of the heap and the caches. The result is the root bag and the state.\<close>

definition PropertyBagParser_parse ::
  "nat \<Rightarrow> tree_store \<Rightarrow> nat \<Rightarrow> state \<Rightarrow> error + nat \<times> state" where
  "PropertyBagParser_parse d T tree s =
     (case PropertyBag ''root'' [] [] s of
        (root, s1) \<Rightarrow>
          (case parse_tree d T tree [root] [] s1 of
             Inl e \<Rightarrow> Inl e
           | Inr s2 \<Rightarrow> Inr (root, s2)))"

definition initial_state :: state where
  "initial_state = \<lparr>heap = [], contains_cache = [], getitem_cache = [], warnings = []\<rparr>"

text \<open>The last two lines of \<open>from_file\<close>: the tree of the lines, parsed into a bag, in
  a process that has created no bag yet.\<close>

definition from_lines :: "nat \<Rightarrow> string list \<Rightarrow> error + nat \<times> state" where
  "from_lines d lines =
     (case IndentationTree_parse d lines of
        Inl e \<Rightarrow> Inl e
      | Inr T \<Rightarrow> PropertyBagParser_parse d T 0 initial_state)"

section \<open>Notions used to state the properties\<close>

subsection \<open>The shape of the tree\<close>

text \<open>
  The raw indent of a line is the length of its leading white space, as \<open>parse\<close> takes
  it from the match. \<open>nearest_smaller is x k\<close> looks back from line \<open>k\<close> over the raw
  indents \<open>is\<close> for the nearest line whose indent is strictly smaller than \<open>x\<close>, and
  gives the address of its node, or the address 0 of the root when there is none.
\<close>

definition raw_indent :: "string \<Rightarrow> int" where
  "raw_indent line = (case indent_regex_match line of
                        Some (ws, t) \<Rightarrow> int (length ws)
                      | None \<Rightarrow> 0)"

fun nearest_smaller :: "int list \<Rightarrow> int \<Rightarrow> nat \<Rightarrow> nat" where
  "nearest_smaller is x 0 = 0"
| "nearest_smaller is x (Suc j) = (if is ! j < x then Suc j else nearest_smaller is x j)"

definition expected_parent :: "int list \<Rightarrow> nat \<Rightarrow> nat" where
  "expected_parent is k = nearest_smaller is (is ! k) k"

subsection \<open>The flattened view and the state of the caches\<close>

text \<open>
  A heap is well formed when every bag has bases that were created before it, children
  under distinct keys, and each child stored under its own name at an address of the heap.
  The constructor and \<open>add\<close> build nothing else as long as the list \<open>bases\<close> is not
  changed from outside.
\<close>

definition bag_ok :: "property_bag list \<Rightarrow> nat \<Rightarrow> bool" where
  "bag_ok h a =
     (list_all (\<lambda>b. b < a) (bases (h ! a)) \<and>
      distinct (map fst (children (h ! a))) \<and>
      list_all (\<lambda>kc. snd kc < length h \<and> bag_name (h ! snd kc) = fst kc) (children (h ! a)))"

definition heap_ok :: "property_bag list \<Rightarrow> bool" where
  "heap_ok h = list_all (bag_ok h) [0..<length h]"

text \<open>
  The flattened view read as a map from names to bags, empty where the recursion does not
  return; and what a bag shows under a name: the entry of its flattened view. Under the
  bound \<open>Suc a\<close> the recursion returns for the bag \<open>a\<close> of a well-formed heap.
\<close>

definition flattened :: "nat \<Rightarrow> property_bag list \<Rightarrow> nat \<Rightarrow> string \<Rightarrow> nat option" where
  "flattened d h a =
     (case flatten_properties d h a of Inr f \<Rightarrow> map_of f | Inl e \<Rightarrow> Map.empty)"

definition visible :: "property_bag list \<Rightarrow> nat \<Rightarrow> string \<Rightarrow> nat option" where
  "visible h a n = flattened (Suc a) h a n"

text \<open>
  The caches hold no stale answer when every entry is what the call would compute on the
  heap as it is now. The entries of the \<open>__getitem__\<close> cache are valid when each bag
  they hold is a bag of the heap that bears the name it is stored under, stale or not.
\<close>

definition cache_ok :: "state \<Rightarrow> bool" where
  "cache_ok s =
     (list_all (\<lambda>e. fst (fst e) < length (heap s) \<and>
                     snd e = (visible (heap s) (fst (fst e)) (snd (fst e)) \<noteq> None))
        (contains_cache s) \<and>
      list_all (\<lambda>e. fst (fst e) < length (heap s) \<and>
                     snd e = visible (heap s) (fst (fst e)) (snd (fst e)))
        (getitem_cache s))"

definition entry_valid :: "property_bag list \<Rightarrow> (nat \<times> string) \<times> nat option \<Rightarrow> bool" where
  "entry_valid h e =
     (case snd e of
        None \<Rightarrow> True
      | Some c \<Rightarrow> c < length h \<and> bag_name (h ! c) = snd (fst e))"

definition cache_valid :: "state \<Rightarrow> bool" where
  "cache_valid s = list_all (entry_valid (heap s)) (getitem_cache s)"

text \<open>
  The search of a stack of bags for a name, without the caches: the first bag that shows
  the name gives what it shows. \<open>resolve_visible\<close> searches the concrete stack and then
  the abstract one.
\<close>

fun first_visible :: "property_bag list \<Rightarrow> nat list \<Rightarrow> string \<Rightarrow> nat option" where
  "first_visible h [] n = None"
| "first_visible h (p # ps) n =
     (case visible h p n of Some b \<Rightarrow> Some b | None \<Rightarrow> first_visible h ps n)"

definition resolve_visible ::
  "property_bag list \<Rightarrow> nat list \<Rightarrow> nat list \<Rightarrow> string \<Rightarrow> nat option" where
  "resolve_visible h parents abstract_props n =
     (case first_visible h parents n of
        Some b \<Rightarrow> Some b
      | None \<Rightarrow> first_visible h abstract_props n)"

text \<open>
  The search as the specification words it, over the direct children only: the first bag
  of the concrete stack with a child of that name, then the first of the abstract stack.
\<close>

fun first_direct :: "property_bag list \<Rightarrow> nat list \<Rightarrow> string \<Rightarrow> nat option" where
  "first_direct h [] n = None"
| "first_direct h (p # ps) n =
     (case map_of (children (h ! p)) n of Some b \<Rightarrow> Some b | None \<Rightarrow> first_direct h ps n)"

definition resolve_direct ::
  "property_bag list \<Rightarrow> nat list \<Rightarrow> nat list \<Rightarrow> string \<Rightarrow> nat option" where
  "resolve_direct h parents abstract_props n =
     (case first_direct h parents n of
        Some b \<Rightarrow> Some b
      | None \<Rightarrow> first_direct h abstract_props n)"

subsection \<open>Joining fragments\<close>

text \<open>\<open>' '.join(ts)\<close>: the fragments with one space between neighbours.\<close>

fun join_space :: "string list \<Rightarrow> string" where
  "join_space [] = []"
| "join_space [t] = t"
| "join_space (t # u # ts) = t @ '' '' @ join_space (u # ts)"

subsection \<open>Example bags\<close>

text \<open>The state in which a call that returned has left the heap and the caches.\<close>

definition state_after :: "error + 'a \<times> state \<Rightarrow> state" where
  "state_after r = (case r of Inr (v, s) \<Rightarrow> s | Inl e \<Rightarrow> initial_state)"

text \<open>
  The bags of the multiple inheritance example, built with the constructor and \<open>add\<close>:
  \<open>a\<close> at address 0 with its children \<open>foo\<close> and \<open>bar\<close> at 1 and 2, \<open>b\<close> at 3 with
  \<open>foo\<close> and \<open>baz\<close> at 4 and 5, \<open>c\<close> at 6 with the bases \<open>a\<close> and \<open>b\<close> and its child
  \<open>sprang\<close> at 7.
\<close>

definition example_bags :: state where
  "example_bags =
     fold (\<lambda>step s. step s)
       [snd \<circ> PropertyBag ''a'' [] [],
        snd \<circ> PropertyBag ''foo'' ''from a'' [], add 0 1,
        snd \<circ> PropertyBag ''bar'' ''from a'' [], add 0 2,
        snd \<circ> PropertyBag ''b'' [] [],
        snd \<circ> PropertyBag ''foo'' ''from b'' [], add 3 4,
        snd \<circ> PropertyBag ''baz'' ''from b'' [], add 3 5,
        snd \<circ> PropertyBag ''c'' [] [0, 3],
        snd \<circ> PropertyBag ''sprang'' ''from c'' [], add 6 7]
       initial_state"

text \<open>
  A bag \<open>b\<close> at address 0 that is asked for \<open>x\<close> before it receives its child \<open>x\<close>, the
  bag at address 1; and the same after sixteen more membership tests, for the names \<open>a\<close>
  to \<open>p\<close>.
\<close>

definition asked_early :: state where
  "asked_early =
     add 0 1 (snd (PropertyBag ''x'' [] []
       (state_after (contains 5 (snd (PropertyBag ''b'' [] [] initial_state)) 0 ''x''))))"


text \<open>
  The state of a parse just before the declaration \<open>y :: x\<close> nested under
  \<open>derived :: base\<close>, where \<open>base\<close> has the child \<open>x\<close>: the root is bag 0, \<open>base\<close> is 2, its
  child \<open>x\<close> is 4, \<open>derived\<close> is 6, and the abstract holders of the root's level and of
  the level of \<open>derived\<close> are 1 and 7.
\<close>

definition before_y :: state where
  "before_y = state_after (from_lines 50 [''base'', ''  x'', ''derived :: base''])"

text \<open>
  The example of a declaration that inherits from a bag of its own name: the tree of the
  lines, and the state in which the declaration \<open>foo ::\<close> under \<open>a\<close> is read: the root at
  address 0, the first \<open>foo\<close> at 2, \<open>a\<close> at 5, the abstract holders of the two levels at 1
  and 6.
\<close>

definition self_named_tree :: tree_store where
  "self_named_tree =
     (case IndentationTree_parse 50 [''foo'', ''  bar = in base'', ''a'', ''  foo ::''] of
        Inr T \<Rightarrow> T | Inl e \<Rightarrow> [])"

definition before_self_named :: state where
  "before_self_named = state_after (from_lines 50 [''foo'', ''  bar = in base'', ''a''])"

text \<open>
  The state after the parse of the lines of the test
  \<open>test_parse_inherit_with_same_name_does_not_reuse_self\<close>: the root is bag 0, the first
  \<open>foo\<close> is 2, \<open>a\<close> is 5 and its child \<open>foo\<close> is 7, \<open>b\<close> is 10 and its child \<open>foo\<close> is 12.
\<close>

definition after_same_name_test :: state where
  "after_same_name_test =
     state_after (from_lines 50
       [''foo'', ''  bar = in base'', ''a'', ''  foo ::'', ''    bar = overridden'',
        ''b'', ''  foo ::''])"

text \<open>
  A parse in which \<open>foo ::\<close> is read under \<open>a\<close> before any \<open>foo\<close> of an enclosing level
  exists, and again under \<open>b\<close> after the root has received its child \<open>foo\<close>: the lines,
  their tree, and the state in which the second \<open>foo ::\<close> is read. There the root is bag
  0, \<open>a\<close> is 2 and its child \<open>foo\<close> is 4, the \<open>foo\<close> of the root is 6, \<open>b\<close> is 9, and the
  abstract holders of the root's level and of the level of \<open>b\<close> are 1 and 10.
\<close>

definition late_base_lines :: "string list" where
  "late_base_lines = [''a'', ''  foo ::'', ''foo'', ''  bar = 1'', ''b'', ''  foo ::'']"

definition late_base_tree :: tree_store where
  "late_base_tree =
     (case IndentationTree_parse 50 late_base_lines of Inr T \<Rightarrow> T | Inl e \<Rightarrow> [])"

definition before_late_base :: state where
  "before_late_base = state_after (from_lines 50 (butlast late_base_lines))"

subsection \<open>The parse of a whole tree\<close>











subsection \<open>Invariants of the tree builder\<close>

text \<open>The text of a line, as \<open>parse\<close> takes it from the match.\<close>

definition line_text :: "string \<Rightarrow> string" where
  "line_text line = (case indent_regex_match line of
                       Some (ws, t) \<Rightarrow> t
                     | None \<Rightarrow> [])"

text \<open>
  The invariant of the loop of \<open>parse\<close>, after the lines with the raw indents \<open>is\<close>: the
  store holds the root and one node for each line, each node under the parent that
  \<open>expected_parent\<close> names, and the stack holds the open nodes, the newest on top and the
  root at the bottom, with indents that grow strictly towards the top; a node that has
  left the stack lies before an open node whose indent is not larger.
\<close>

definition parse_inv :: "int list \<Rightarrow> tree_store \<Rightarrow> nat list \<Rightarrow> bool" where
  "parse_inv is T stack =
     (length T = Suc (length is) \<and> indent (T ! 0) = - 1 \<and>
      (\<forall>k<length is. indent (T ! Suc k) = is ! k \<and> 0 \<le> is ! k) \<and>
      (\<forall>p<length T. node_children (T ! p) =
         filter (\<lambda>c. expected_parent is (c - 1) = p) [1..<length T]) \<and>
      stack \<noteq> [] \<and> last stack = 0 \<and> set stack \<subseteq> {..<length T} \<and>
      sorted_wrt (\<lambda>a b. b < a) stack \<and>
      (\<forall>j<length T. j \<notin> set stack \<longrightarrow>
         (\<exists>k\<in>set stack. j < k \<and> indent (T ! k) \<le> indent (T ! j))))"

text \<open>
  A store has the shape of the parent function \<open>par\<close> when the children of a node are the
  nodes that \<open>par\<close> sends to it, and \<open>par\<close> sends every node but the root to an older
  node. \<open>below par a b\<close>: the node \<open>b\<close> lies in the subtree of \<open>a\<close>.
\<close>

definition shaped :: "(nat \<Rightarrow> nat) \<Rightarrow> tree_store \<Rightarrow> bool" where
  "shaped par T =
     ((\<forall>p<length T. set (node_children (T ! p)) = {c. 0 < c \<and> c < length T \<and> par c = p}) \<and>
      (\<forall>c. par c \<le> c) \<and> (\<forall>c. 0 < c \<longrightarrow> par c \<noteq> c))"

definition below :: "(nat \<Rightarrow> nat) \<Rightarrow> nat \<Rightarrow> nat \<Rightarrow> bool" where
  "below par a b = (\<exists>k. (par ^^ k) b = a)"

text \<open>Two stores that differ in the indents of their nodes only.\<close>

definition same_shape :: "tree_store \<Rightarrow> tree_store \<Rightarrow> bool" where
  "same_shape T T' =
     (length T' = length T \<and>
      (\<forall>m<length T. node_children (T' ! m) = node_children (T ! m) \<and>
                     node_text (T' ! m) = node_text (T ! m)))"

section \<open>The flattened view\<close>

lemma map_of_dict_set: "map_of (dict_set k v kvs) = (map_of kvs)(k \<mapsto> v)"
  by (induction kvs) auto

lemma keys_dict_set: "fst ` set (dict_set k v kvs) = insert k (fst ` set kvs)"
proof (induction k v kvs rule: dict_set.induct)
  case (1 k v)
  then show ?case by simp
next
  case (2 k v k' v' kvs)
  then show ?case by (cases "k' = k") auto
qed

lemma distinct_dict_set: "distinct (map fst kvs) \<Longrightarrow> distinct (map fst (dict_set k v kvs))"
  by (induction kvs) (auto simp: keys_dict_set)

lemma distinct_dict_set_all:
  "distinct (map fst props) \<Longrightarrow> distinct (map fst (dict_set_all items props))"
  by (induction items props rule: dict_set_all.induct) (auto simp: distinct_dict_set)

lemma map_of_dict_set_all:
  "distinct (map fst items) \<Longrightarrow> map_of (dict_set_all items props) = map_of props ++ map_of items"
proof (induction items props rule: dict_set_all.induct)
  case (1 props)
  then show ?case by simp
next
  case (2 k v items props)
  then have k: "k \<notin> dom (map_of items)" and d: "distinct (map fst items)"
    by (auto simp: dom_map_of_conv_image_fst)
  have "map_of (dict_set_all ((k, v) # items) props) = map_of (dict_set k v props) ++ map_of items"
    using "2.IH" [OF d] by simp
  also have "\<dots> = (map_of props)(k \<mapsto> v) ++ map_of items"
    by (simp only: map_of_dict_set)
  also have "\<dots> = (map_of props ++ map_of items)(k \<mapsto> v)"
    using k by (rule map_add_upd_left)
  also have "\<dots> = map_of props ++ map_of ((k, v) # items)"
    by simp
  finally show ?case .
qed

lemma distinct_flatten:
  "flatten_properties d h a = Inr f \<Longrightarrow> distinct (map fst f)"
  "flatten_bases d h bs props = Inr f \<Longrightarrow> distinct (map fst props) \<Longrightarrow> distinct (map fst f)"
proof (induction d h a and d h bs props arbitrary: f and f rule: flatten_properties_flatten_bases.induct)
  case (1 h self)
  then show ?case by simp
next
  case (2 d h self)
  then show ?case by (auto split: sum.splits simp: distinct_dict_set_all)
next
  case (3 d h properties)
  then show ?case by simp
next
  case (4 d h base_prop bs properties)
  then show ?case by (auto split: sum.splits simp: distinct_dict_set_all)
qed

lemma flatten_bases_overlay:
  "flatten_bases d h bs props = Inr f \<Longrightarrow>
     (\<forall>b\<in>set bs. \<exists>g. flatten_properties d h b = Inr g) \<and>
     map_of f = foldl (\<lambda>m b. m ++ flattened d h b) (map_of props) bs"
proof (induction bs arbitrary: props)
  case Nil
  then show ?case by simp
next
  case (Cons b bs)
  then obtain g where g: "flatten_properties d h b = Inr g"
    and rest: "flatten_bases d h bs (dict_set_all g props) = Inr f"
    by (auto split: sum.splits)
  have "map_of (dict_set_all g props) = map_of props ++ flattened d h b"
    using distinct_flatten(1) [OF g] by (simp add: map_of_dict_set_all flattened_def g)
  with Cons.IH [OF rest] g show ?case by simp
qed

text \<open>
  Claim C1. The flattened view of a bag is the views of its bases laid over one another in
  the order the bases are listed, a later base overriding an earlier one, with the bag's
  own children laid over the result: read as a map, the result of \<open>flatten_properties\<close> is
  that overlay, and it has one entry for each name. For the example bags, \<open>c\<close> with the
  bases \<open>a\<close> and \<open>b\<close> shows exactly \<open>foo\<close> of \<open>b\<close>, \<open>bar\<close> of \<open>a\<close>, \<open>baz\<close> of \<open>b\<close>
  and its own \<open>sprang\<close>.
\<close>

theorem flatten_properties_overlay:
  "(\<forall>d h self props.
      flatten_properties (Suc d) h self = Inr props \<and> distinct (map fst (children (h ! self))) \<longrightarrow>
        (\<forall>b\<in>set (bases (h ! self)). \<exists>g. flatten_properties d h b = Inr g) \<and>
        map_of props =
          foldl (\<lambda>m b. m ++ flattened d h b) Map.empty (bases (h ! self))
            ++ map_of (children (h ! self)) \<and>
        distinct (map fst props)) \<and>
   flatten_properties 2 (heap example_bags) 6 =
     Inr [(''foo'', 4), (''bar'', 2), (''baz'', 5), (''sprang'', 7)] \<and>
   map (\<lambda>a. bag_value (heap example_bags ! a)) [4, 2, 5, 7] =
     [''from b'', ''from a'', ''from b'', ''from c''] \<and>
   map (\<lambda>a. (bag_name (heap example_bags ! a), bases (heap example_bags ! a),
              map fst (children (heap example_bags ! a)))) [0, 3, 6] =
     [(''a'', [], [''foo'', ''bar'']), (''b'', [], [''foo'', ''baz'']), (''c'', [0, 3], [''sprang''])]"
proof -
  have general: "(\<forall>b\<in>set (bases (h ! self)). \<exists>g. flatten_properties d h b = Inr g) \<and>
        map_of props =
          foldl (\<lambda>m b. m ++ flattened d h b) Map.empty (bases (h ! self))
            ++ map_of (children (h ! self)) \<and>
        distinct (map fst props)"
    if run: "flatten_properties (Suc d) h self = Inr props"
      and dist: "distinct (map fst (children (h ! self)))"
    for d h self props
  proof -
    from run obtain inherited where
      inh: "flatten_bases d h (bases (h ! self)) [] = Inr inherited"
      and props: "props = dict_set_all (children (h ! self)) inherited"
      by (auto split: sum.splits)
    from flatten_bases_overlay [OF inh] dist props
    have "map_of props =
          foldl (\<lambda>m b. m ++ flattened d h b) Map.empty (bases (h ! self))
            ++ map_of (children (h ! self))"
      by (simp add: map_of_dict_set_all)
    moreover have "distinct (map fst props)"
      using distinct_flatten(1) [OF run] .
    ultimately show ?thesis
      using flatten_bases_overlay [OF inh] by blast
  qed
  have e1: "flatten_properties 2 (heap example_bags) 6 =
     Inr [(''foo'', 4), (''bar'', 2), (''baz'', 5), (''sprang'', 7)]"
    by code_simp
  have e2: "map (\<lambda>a. bag_value (heap example_bags ! a)) [4, 2, 5, 7] =
     [''from b'', ''from a'', ''from b'', ''from c'']"
    by code_simp
  have e3: "map (\<lambda>a. (bag_name (heap example_bags ! a), bases (heap example_bags ! a),
              map fst (children (heap example_bags ! a)))) [0, 3, 6] =
     [(''a'', [], [''foo'', ''bar'']), (''b'', [], [''foo'', ''baz'']), (''c'', [0, 3], [''sprang''])]"
    by code_simp
  show ?thesis
    apply (intro conjI allI impI)
         apply (use general in blast)
        apply (use general in blast)
       apply (use general in blast)
      apply (rule e1)
     apply (rule e2)
    apply (rule e3)
    done
qed

theorem flatten_properties_overlay_witness:
  "flatten_properties (Suc 1) (heap example_bags) 6 =
     Inr [(''foo'', 4), (''bar'', 2), (''baz'', 5), (''sprang'', 7)] \<and>
   distinct (map fst (children (heap example_bags ! 6))) \<and>
   map_of [(''foo'', 4), (''bar'', 2), (''baz'', 5), (''sprang'', 7 :: nat)] =
     foldl (\<lambda>m b. m ++ flattened 1 (heap example_bags) b) Map.empty (bases (heap example_bags ! 6))
       ++ map_of (children (heap example_bags ! 6))"
proof -
  have run: "flatten_properties (Suc 1) (heap example_bags) 6 =
     Inr [(''foo'', 4), (''bar'', 2), (''baz'', 5), (''sprang'', 7)]"
    by code_simp
  have dist: "distinct (map fst (children (heap example_bags ! 6)))"
    by code_simp
  from flatten_properties_overlay
  have "flatten_properties (Suc 1) (heap example_bags) 6 =
          Inr [(''foo'', 4), (''bar'', 2), (''baz'', 5), (''sprang'', 7)] \<and>
        distinct (map fst (children (heap example_bags ! 6))) \<longrightarrow>
        map_of [(''foo'', 4), (''bar'', 2), (''baz'', 5), (''sprang'', 7 :: nat)] =
          foldl (\<lambda>m b. m ++ flattened 1 (heap example_bags) b) Map.empty
            (bases (heap example_bags ! 6))
          ++ map_of (children (heap example_bags ! 6))"
    by blast
  with run dist show ?thesis
    by (intro conjI) (assumption | blast)+
qed

section \<open>The tree builder\<close>

subsection \<open>The indent pattern and the stack\<close>

lemma not_at_end_dropWhile:
  "\<not> at_end (dropWhile dot (dropWhile regex_space s)) \<Longrightarrow> \<not> at_end (dropWhile dot s)"
proof (induction s)
  case Nil
  then show ?case by simp
next
  case (Cons c cs)
  show ?case
  proof (cases "regex_space c")
    case True
    with Cons.prems have hyp: "\<not> at_end (dropWhile dot (dropWhile regex_space cs))" by simp
    with Cons.IH have rest: "\<not> at_end (dropWhile dot cs)" by simp
    show ?thesis
    proof (cases "dot c")
      case True
      with rest show ?thesis by simp
    next
      case False
      from hyp have "cs \<noteq> []" by (auto simp: at_end_def)
      with False show ?thesis by (simp add: at_end_def)
    qed
  next
    case False
    with Cons.prems show ?thesis by simp
  qed
qed

lemma match_indent_eq:
  "match_indent w s =
     (if at_end (dropWhile dot (dropWhile regex_space s))
      then Some (w @ takeWhile regex_space s, takeWhile dot (dropWhile regex_space s))
      else None)"
proof (induction s arbitrary: w)
  case Nil
  then show ?case by (simp add: match_text_def at_end_def)
next
  case (Cons c cs)
  show ?case
  proof (cases "regex_space c")
    case True
    show ?thesis
    proof (cases "at_end (dropWhile dot (dropWhile regex_space cs))")
      case yes: True
      with True Cons.IH [of "w @ [c]"] show ?thesis by simp
    next
      case no: False
      with True have "\<not> at_end (dropWhile dot (dropWhile regex_space (c # cs)))" by simp
      then have "\<not> at_end (dropWhile dot (c # cs))" by (rule not_at_end_dropWhile)
      then have "match_text (c # cs) = None" by (simp add: match_text_def)
      with True no Cons.IH [of "w @ [c]"] show ?thesis by simp
    qed
  next
    case False
    then show ?thesis by (simp add: match_text_def)
  qed
qed

lemma indent_regex_match_iff:
  "indent_regex_match l \<noteq> None \<longleftrightarrow> at_end (dropWhile dot (dropWhile regex_space l))"
  by (simp add: indent_regex_match_def match_indent_eq)

lemma pop_stack_split:
  assumes "\<exists>a\<in>set stack. indent (T ! a) < i"
  shows "\<exists>pre tos rest. stack = pre @ tos # rest \<and> pop_stack T i stack = Inr (tos # rest) \<and>
           (\<forall>a\<in>set pre. i \<le> indent (T ! a)) \<and> indent (T ! tos) < i"
  using assms
proof (induction stack)
  case Nil
  then show ?case by simp
next
  case (Cons a stack)
  show ?case
  proof (cases "i \<le> indent (T ! a)")
    case True
    with Cons.prems have "\<exists>a\<in>set stack. indent (T ! a) < i" by auto
    from Cons.IH [OF this] obtain pre tos rest where
      "stack = pre @ tos # rest" "pop_stack T i stack = Inr (tos # rest)"
      "\<forall>a\<in>set pre. i \<le> indent (T ! a)" "indent (T ! tos) < i"
      by blast
    with True have "a # stack = (a # pre) @ tos # rest \<and> pop_stack T i (a # stack) = Inr (tos # rest) \<and>
           (\<forall>b\<in>set (a # pre). i \<le> indent (T ! b)) \<and> indent (T ! tos) < i"
      by simp
    then show ?thesis by blast
  next
    case False
    then have "a # stack = [] @ a # stack \<and> pop_stack T i (a # stack) = Inr (a # stack) \<and>
           (\<forall>b\<in>set []. i \<le> indent (T ! b)) \<and> indent (T ! a) < i"
      by simp
    then show ?thesis by blast
  qed
qed

lemma nearest_smaller_le: "nearest_smaller is x k \<le> k"
  by (induction k) auto

lemma nearest_smaller_append:
  "k \<le> length is \<Longrightarrow> nearest_smaller (is @ js) x k = nearest_smaller is x k"
  by (induction k) (auto simp: nth_append)

lemma nearest_smaller_eq:
  "p \<le> k \<Longrightarrow> p = 0 \<or> is ! (p - 1) < x \<Longrightarrow> \<forall>j. p \<le> j \<and> j < k \<longrightarrow> \<not> is ! j < x \<Longrightarrow>
     nearest_smaller is x k = p"
proof (induction k)
  case 0
  then show ?case by simp
next
  case (Suc k)
  show ?case
  proof (cases "p = Suc k")
    case True
    with Suc.prems show ?thesis by simp
  next
    case False
    with Suc.prems have "p \<le> k" and "\<not> is ! k < x" by auto
    with Suc show ?thesis by simp
  qed
qed

lemma expected_parent_le: "expected_parent is k \<le> k"
  by (simp add: expected_parent_def nearest_smaller_le)

lemma expected_parent_append:
  "k < length is \<Longrightarrow> expected_parent (is @ js) k = expected_parent is k"
  by (simp add: expected_parent_def nearest_smaller_append nth_append)

lemma parse_line_inv:
  assumes inv: "parse_inv is T stack" and mt: "indent_regex_match l = Some (ws, t)"
  shows "\<exists>T' stack'. parse_line l (T, stack) = Inr (T', stack') \<and>
           parse_inv (is @ [int (length ws)]) T' stack' \<and>
           node_text (T' ! Suc (length is)) = t \<and>
           (\<forall>k<length T. node_text (T' ! k) = node_text (T ! k))"
proof -
  define x where "x = int (length ws)"
  define m where "m = length is"
  from inv have len: "length T = Suc m"
    and root: "indent (T ! 0) = - 1"
    and ind: "\<And>k. k < m \<Longrightarrow> indent (T ! Suc k) = is ! k \<and> 0 \<le> is ! k"
    and chi: "\<And>p. p < Suc m \<Longrightarrow> node_children (T ! p) =
         filter (\<lambda>c. expected_parent is (c - 1) = p) [1..<Suc m]"
    and ne: "stack \<noteq> []" and bottom: "last stack = 0"
    and sub: "set stack \<subseteq> {..<Suc m}"
    and srt: "sorted_wrt (\<lambda>a b. b < a) stack"
    and closed: "\<And>j. j < Suc m \<Longrightarrow> j \<notin> set stack \<Longrightarrow>
         \<exists>k\<in>set stack. j < k \<and> indent (T ! k) \<le> indent (T ! j)"
    by (auto simp: parse_inv_def m_def)
  have x0: "0 \<le> x" by (simp add: x_def)
  from ne bottom have "0 \<in> set stack" using last_in_set by fastforce
  with root x0 have "\<exists>a\<in>set stack. indent (T ! a) < x" by force
  from pop_stack_split [OF this] obtain pre tos rest where
    split: "stack = pre @ tos # rest" and pop: "pop_stack T x stack = Inr (tos # rest)"
    and popped: "\<And>a. a \<in> set pre \<Longrightarrow> x \<le> indent (T ! a)" and tos: "indent (T ! tos) < x"
    by blast
  define T' where "T' = T[tos := (T ! tos)\<lparr>node_children := node_children (T ! tos) @ [Suc m]\<rparr>]
                         @ [IndentationTree x t]"
  define is' where "is' = is @ [x]"
  have run: "parse_line l (T, stack) = Inr (T', Suc m # tos # rest)"
    using mt pop by (simp add: parse_line_def x_def [symmetric] T'_def len Let_def)
  from split sub have tos_le: "tos \<le> m" by auto
  have old: "T' ! j = (if j = tos then (T ! tos)\<lparr>node_children := node_children (T ! tos) @ [Suc m]\<rparr>
                       else T ! j)" if "j < Suc m" for j
    using that len by (simp add: T'_def nth_append)
  have new: "T' ! Suc m = IndentationTree x t"
    using len by (simp add: T'_def nth_append)
  have len': "length T' = Suc (Suc m)" by (simp add: T'_def len)
  have ind_old: "indent (T' ! j) = indent (T ! j)" if "j < Suc m" for j
    using old [OF that] by simp
  have txt_old: "node_text (T' ! j) = node_text (T ! j)" if "j < Suc m" for j
    using old [OF that] by simp
  \<comment> \<open>every node after \<open>tos\<close> has an indent that is not smaller than the new one\<close>
  have later: "x \<le> indent (T ! j)" if "tos < j" "j \<le> m" for j
  proof (cases "j \<in> set stack")
    case True
    from srt split have "\<forall>b\<in>set rest. b < tos" by (simp add: sorted_wrt_append)
    with True that split have "j \<in> set pre" by auto
    then show ?thesis by (rule popped)
  next
    case False
    with closed [of j] that obtain k where k: "k \<in> set stack" "j < k" "indent (T ! k) \<le> indent (T ! j)"
      by auto
    from srt split have "\<forall>b\<in>set rest. b < tos" by (simp add: sorted_wrt_append)
    with k that split have "k \<in> set pre" by auto
    from popped [OF this] k show ?thesis by simp
  qed
  have par_new: "expected_parent is' m = tos"
  proof -
    have a: "tos = 0 \<or> is' ! (tos - 1) < x"
    proof (cases tos)
      case 0
      then show ?thesis by simp
    next
      case (Suc j)
      with tos_le have "j < m" by simp
      with ind [of j] tos Suc show ?thesis by (simp add: is'_def nth_append m_def)
    qed
    have b: "\<forall>j. tos \<le> j \<and> j < m \<longrightarrow> \<not> is' ! j < x"
    proof (intro allI impI)
      fix j assume j: "tos \<le> j \<and> j < m"
      then have "x \<le> indent (T ! Suc j)" by (intro later) auto
      with ind [of j] j show "\<not> is' ! j < x" by (simp add: is'_def nth_append m_def)
    qed
    have "nearest_smaller is' x m = tos"
      using tos_le a b by (rule nearest_smaller_eq)
    then show ?thesis by (simp add: expected_parent_def is'_def m_def)
  qed
  have par_old: "expected_parent is' k = expected_parent is k" if "k < m" for k
    using that by (simp add: is'_def expected_parent_append m_def)
  have chi': "node_children (T' ! p) = filter (\<lambda>c. expected_parent is' (c - 1) = p) [1..<Suc (Suc m)]"
    if p: "p < Suc (Suc m)" for p
  proof -
    have flt: "filter (\<lambda>c. expected_parent is' (c - 1) = p) [1..<Suc m] =
               filter (\<lambda>c. expected_parent is (c - 1) = p) [1..<Suc m]"
      by (rule filter_cong) (auto simp: par_old)
    have eq: "filter (\<lambda>c. expected_parent is' (c - 1) = p) [1..<Suc (Suc m)] =
          filter (\<lambda>c. expected_parent is (c - 1) = p) [1..<Suc m] @ (if tos = p then [Suc m] else [])"
      using flt par_new by simp
    show ?thesis
    proof (cases "p = Suc m")
      case True
      have "expected_parent is (c - 1) \<noteq> Suc m" if "c \<in> set [1..<Suc m]" for c
        using expected_parent_le [of "is" "c - 1"] that by auto
      then have "filter (\<lambda>c. expected_parent is (c - 1) = Suc m) [1..<Suc m] = []"
        by (simp add: filter_empty_conv)
      with True eq tos_le new show ?thesis by (simp add: IndentationTree_def)
    next
      case False
      with p have "p < Suc m" by simp
      with old [OF this] chi [OF this] eq show ?thesis by auto
    qed
  qed
  have inv': "parse_inv is' T' (Suc m # tos # rest)"
    unfolding parse_inv_def
  proof (intro conjI allI impI)
    show "length T' = Suc (length is')" by (simp add: len' is'_def m_def)
    show "indent (T' ! 0) = - 1" using ind_old [of 0] root by simp
    show "indent (T' ! Suc k) = is' ! k" if "k < length is'" for k
    proof (cases "k < m")
      case True
      with ind [of k] ind_old [of "Suc k"] show ?thesis by (simp add: is'_def nth_append m_def)
    next
      case False
      with that have "k = m" by (simp add: is'_def m_def)
      with new show ?thesis by (simp add: IndentationTree_def is'_def m_def)
    qed
    show "0 \<le> is' ! k" if "k < length is'" for k
      using that ind [of k] x0 by (cases "k < m") (auto simp: is'_def nth_append m_def)
    show "node_children (T' ! p) = filter (\<lambda>c. expected_parent is' (c - 1) = p) [1..<length T']"
      if "p < length T'" for p
      using chi' [of p] that by (simp add: len')
    show "Suc m # tos # rest \<noteq> []" by simp
    show "last (Suc m # tos # rest) = 0" using bottom split by simp
    show "set (Suc m # tos # rest) \<subseteq> {..<length T'}" using sub split by (auto simp: len')
    show "sorted_wrt (\<lambda>a b. b < a) (Suc m # tos # rest)"
      using srt sub split by (auto simp: sorted_wrt_append)
    show "\<exists>k\<in>set (Suc m # tos # rest). j < k \<and> indent (T' ! k) \<le> indent (T' ! j)"
      if j: "j < length T'" and off: "j \<notin> set (Suc m # tos # rest)" for j
    proof -
      from j off have jm: "j < Suc m" by (simp add: len')
      have via_new: ?thesis if "x \<le> indent (T ! j)"
        using that jm new ind_old [OF jm] by (auto simp: IndentationTree_def)
      show ?thesis
      proof (cases "j \<in> set pre")
        case True
        from popped [OF this] show ?thesis by (rule via_new)
      next
        case False
        with off split have "j \<notin> set stack" by simp
        from closed [OF jm this] obtain k where
          k: "k \<in> set stack" "j < k" "indent (T ! k) \<le> indent (T ! j)" by blast
        show ?thesis
        proof (cases "k \<in> set pre")
          case True
          from popped [OF this] k have "x \<le> indent (T ! j)" by simp
          then show ?thesis by (rule via_new)
        next
          case False
          with k split have kin: "k \<in> set (tos # rest)" by simp
          with sub split have "k < Suc m" by auto
          with k kin ind_old [of k] ind_old [OF jm] show ?thesis by auto
        qed
      qed
    qed
  qed
  have "node_text (T' ! Suc (length is)) = t"
    using new by (simp add: IndentationTree_def m_def)
  moreover have "\<forall>k<length T. node_text (T' ! k) = node_text (T ! k)"
    using txt_old len by simp
  ultimately show ?thesis
    using run inv' by (simp add: is'_def x_def)
qed

subsection \<open>The loop over the lines\<close>

lemma parse_inv_initial: "parse_inv [] [IndentationTree (- 1) []] [0]"
  by (simp add: parse_inv_def IndentationTree_def)

lemma parse_line_no_match:
  "indent_regex_match l = None \<Longrightarrow> parse_line l (T, stack) = Inl TypeError"
  by (simp add: parse_line_def)

lemma raw_indent_match: "indent_regex_match l = Some (ws, t) \<Longrightarrow> raw_indent l = int (length ws)"
  by (simp add: raw_indent_def)

lemma line_text_match: "indent_regex_match l = Some (ws, t) \<Longrightarrow> line_text l = t"
  by (simp add: line_text_def)

lemma parse_lines_inv:
  assumes "parse_inv (map raw_indent pre) T stack"
    and "\<forall>k<length pre. node_text (T ! Suc k) = line_text (pre ! k)"
  shows "case parse_lines ls (T, stack) of
           Inr (T', stack') \<Rightarrow>
             parse_inv (map raw_indent (pre @ ls)) T' stack' \<and>
             (\<forall>k<length (pre @ ls). node_text (T' ! Suc k) = line_text ((pre @ ls) ! k)) \<and>
             (\<forall>l\<in>set ls. indent_regex_match l \<noteq> None)
         | Inl e \<Rightarrow> e = TypeError \<and> (\<exists>l\<in>set ls. indent_regex_match l = None)"
  using assms
proof (induction ls arbitrary: pre T stack)
  case Nil
  then show ?case by simp
next
  case (Cons l ls)
  show ?case
  proof (cases "indent_regex_match l")
    case None
    then show ?thesis by (simp add: parse_line_no_match)
  next
    case (Some r)
    obtain ws t where r: "r = (ws, t)" by (cases r)
    with Some have mt: "indent_regex_match l = Some (ws, t)" by simp
    from parse_line_inv [OF Cons.prems(1) mt] obtain T1 stack1 where
      step: "parse_line l (T, stack) = Inr (T1, stack1)"
      and inv1: "parse_inv (map raw_indent pre @ [int (length ws)]) T1 stack1"
      and new: "node_text (T1 ! Suc (length (map raw_indent pre))) = t"
      and old: "\<forall>k<length T. node_text (T1 ! k) = node_text (T ! k)"
      by blast
    from Cons.prems(1) have len: "length T = Suc (length pre)" by (simp add: parse_inv_def)
    have inv1': "parse_inv (map raw_indent (pre @ [l])) T1 stack1"
      using inv1 by (simp add: raw_indent_match [OF mt])
    have txt1: "\<forall>k<length (pre @ [l]). node_text (T1 ! Suc k) = line_text ((pre @ [l]) ! k)"
    proof (intro allI impI)
      fix k assume "k < length (pre @ [l])"
      then consider "k < length pre" | "k = length pre" by fastforce
      then show "node_text (T1 ! Suc k) = line_text ((pre @ [l]) ! k)"
      proof cases
        case 1
        with old len Cons.prems(2) show ?thesis by (simp add: nth_append)
      next
        case 2
        with new show ?thesis by (simp add: line_text_match [OF mt])
      qed
    qed
    from Cons.IH [OF inv1' txt1] step mt show ?thesis
      by (auto split: sum.splits)
  qed
qed

subsection \<open>Subtrees\<close>

lemma below_refl: "below par a a"
  unfolding below_def by (rule exI [of _ 0]) simp

lemma below_step: "below par a (par b) \<Longrightarrow> below par a b"
  unfolding below_def
proof (elim exE)
  fix k assume "(par ^^ k) (par b) = a"
  then have "(par ^^ Suc k) b = a" by (simp add: funpow_swap1)
  then show "\<exists>k. (par ^^ k) b = a" by blast
qed

lemma below_parent: "below par c m \<Longrightarrow> below par (par c) m"
  unfolding below_def
proof (elim exE)
  fix k assume "(par ^^ k) m = c"
  then have "(par ^^ Suc k) m = par c" by simp
  then show "\<exists>k. (par ^^ k) m = par c" by blast
qed

lemma funpow_le: "\<forall>c. par c \<le> c \<Longrightarrow> (par ^^ k) (b::nat) \<le> b"
proof (induction k)
  case 0
  then show ?case by simp
next
  case (Suc k)
  then have "par ((par ^^ k) b) \<le> (par ^^ k) b" and "(par ^^ k) b \<le> b" by blast+
  then show ?case by simp
qed

lemma below_le: "\<forall>c. par c \<le> c \<Longrightarrow> below par a b \<Longrightarrow> a \<le> b"
  unfolding below_def using funpow_le by blast

lemma below_upper: "below par a b \<Longrightarrow> a \<noteq> b \<Longrightarrow> below par a (par b)"
  unfolding below_def
proof (elim exE)
  fix k assume k: "(par ^^ k) b = a" and ne: "a \<noteq> b"
  then obtain k' where "k = Suc k'" by (cases k) auto
  with k have "(par ^^ k') (par b) = a" by (simp add: funpow_swap1)
  then show "\<exists>k. (par ^^ k) (par b) = a" by blast
qed

lemma below_chain:
  assumes "below par a m" "below par b m"
  shows "below par a b \<or> below par b a"
proof -
  from assms obtain j k where j: "(par ^^ j) m = a" and k: "(par ^^ k) m = b"
    unfolding below_def by blast
  show ?thesis
  proof (cases "j \<le> k")
    case True
    then have "(par ^^ (k - j)) ((par ^^ j) m) = (par ^^ k) m"
      by (simp add: funpow_add [symmetric, unfolded comp_def, THEN fun_cong])
    with j k have "(par ^^ (k - j)) a = b" by simp
    then show ?thesis unfolding below_def by blast
  next
    case False
    then have "(par ^^ (j - k)) ((par ^^ k) m) = (par ^^ j) m"
      by (simp add: funpow_add [symmetric, unfolded comp_def, THEN fun_cong])
    with j k have "(par ^^ (j - k)) b = a" by simp
    then show ?thesis unfolding below_def by blast
  qed
qed

lemma shaped_children:
  "shaped par T \<Longrightarrow> p < length T \<Longrightarrow>
     c \<in> set (node_children (T ! p)) \<longleftrightarrow> 0 < c \<and> c < length T \<and> par c = p"
  by (simp add: shaped_def)

lemma shaped_less: "shaped par T \<Longrightarrow> 0 < c \<Longrightarrow> par c < c"
  unfolding shaped_def by (metis le_neq_implies_less)

lemma shaped_le: "shaped par T \<Longrightarrow> \<forall>c. par c \<le> c"
  by (simp add: shaped_def)

lemma shaped_same: "shaped par T \<Longrightarrow> same_shape T T' \<Longrightarrow> shaped par T'"
  by (simp add: shaped_def same_shape_def)

lemma same_shape_refl: "same_shape T T"
  by (simp add: same_shape_def)

lemma same_shape_trans: "same_shape T T1 \<Longrightarrow> same_shape T1 T2 \<Longrightarrow> same_shape T T2"
  by (simp add: same_shape_def)

text \<open>Two children of one node have no node in common below them.\<close>

lemma siblings_apart:
  assumes sh: "shaped par T" and c: "0 < c" "0 < c'" "par c = par c'"
    and m: "below par c m" "below par c' m"
  shows "c = c'"
proof (rule ccontr)
  assume ne: "c \<noteq> c'"
  from below_chain [OF m] show False
  proof
    assume "below par c c'"
    from below_upper [OF this ne] c have "below par c (par c)" by simp
    from below_le [OF shaped_le [OF sh] this] shaped_less [OF sh c(1)] show False by simp
  next
    assume "below par c' c"
    from below_upper [OF this] ne c have "below par c' (par c')" by simp
    from below_le [OF shaped_le [OF sh] this] shaped_less [OF sh c(2)] show False by simp
  qed
qed

text \<open>A node strictly below \<open>n\<close> lies below a child of \<open>n\<close>.\<close>

lemma below_child:
  assumes sh: "shaped par T" and n: "n < length T"
  shows "(par ^^ k) p = n \<Longrightarrow> p \<noteq> n \<Longrightarrow> p < length T \<Longrightarrow>
           \<exists>c\<in>set (node_children (T ! n)). below par c p"
proof (induction k arbitrary: p)
  case 0
  then show ?case by simp
next
  case (Suc k)
  from Suc.prems(1) have up: "(par ^^ k) (par p) = n" by (simp add: funpow_swap1)
  show ?case
  proof (cases "par p = n")
    case True
    have "0 < p"
    proof (rule ccontr)
      assume "\<not> 0 < p"
      then have "p = 0" by simp
      with shaped_le [OF sh] have "par p = 0" by (metis le_zero_eq)
      with True \<open>p = 0\<close> Suc.prems(2) show False by simp
    qed
    with True Suc.prems(3) have "p \<in> set (node_children (T ! n))"
      by (simp add: shaped_children [OF sh n])
    with below_refl show ?thesis by blast
  next
    case False
    from shaped_le [OF sh] have "par p \<le> p" by blast
    with Suc.prems(3) have "par p < length T" by simp
    from Suc.IH [OF up False this] obtain c where
      "c \<in> set (node_children (T ! n))" "below par c (par p)" by blast
    with below_step show ?thesis by blast
  qed
qed

subsection \<open>The normalization\<close>

lemma normalize_post:
  fixes par :: "nat \<Rightarrow> nat"
  shows "shaped par T \<Longrightarrow> n < length T \<Longrightarrow> normalize_indentation d T n i = Inr T' \<Longrightarrow>
     same_shape T T' \<and> indent (T' ! n) = i \<and>
     (\<forall>m<length T. \<not> below par n m \<longrightarrow> indent (T' ! m) = indent (T ! m)) \<and>
     (\<forall>p<length T. below par n p \<longrightarrow>
        (\<forall>c\<in>set (node_children (T ! p)). indent (T' ! c) = indent (T' ! p) + 1))"
  and "shaped par T \<Longrightarrow> \<forall>c\<in>set cs. 0 < c \<and> c < length T \<and> par c = n' \<Longrightarrow>
     normalize_children d T cs i = Inr T' \<Longrightarrow>
     same_shape T T' \<and> (\<forall>c\<in>set cs. indent (T' ! c) = i) \<and>
     (\<forall>m<length T. (\<forall>c\<in>set cs. \<not> below par c m) \<longrightarrow> indent (T' ! m) = indent (T ! m)) \<and>
     (\<forall>p<length T. (\<exists>c\<in>set cs. below par c p) \<longrightarrow>
        (\<forall>c'\<in>set (node_children (T ! p)). indent (T' ! c') = indent (T' ! p) + 1))"
proof (induction d T n i and d T cs i arbitrary: T' and T' n'
       rule: normalize_indentation_normalize_children.induct)
  case (1 T n current_indent)
  then show ?case by simp
next
  case (2 d T n i)
  note sh = \<open>shaped par T\<close> and n = \<open>n < length T\<close>
  define T1 where "T1 = T[n := (T ! n)\<lparr>indent := i\<rparr>]"
  have T1n: "T1 ! n = (T ! n)\<lparr>indent := i\<rparr>" using n by (simp add: T1_def)
  have T1m: "T1 ! m = T ! m" if "m \<noteq> n" for m using that by (simp add: T1_def)
  have ss1: "same_shape T T1"
    using n by (auto simp: same_shape_def T1_def nth_list_update)
  have sh1: "shaped par T1" using sh ss1 by (rule shaped_same)
  have len1: "length T1 = length T" by (simp add: T1_def)
  from "2.prems"(3) have run: "normalize_children d T1 (node_children (T ! n)) (i + 1) = Inr T'"
    by (simp add: T1_def)
  have kids: "\<forall>c\<in>set (node_children (T ! n)). 0 < c \<and> c < length T1 \<and> par c = n"
    using shaped_children [OF sh n] by (simp add: len1)
  from "2.IH" [OF sh1 [unfolded T1_def] kids [unfolded T1_def] run [unfolded T1_def]]
  have ss2: "same_shape T1 T'"
    and ki: "\<And>c. c \<in> set (node_children (T ! n)) \<Longrightarrow> indent (T' ! c) = i + 1"
    and frame: "\<And>m. m < length T \<Longrightarrow> \<forall>c\<in>set (node_children (T ! n)). \<not> below par c m \<Longrightarrow>
                  indent (T' ! m) = indent (T1 ! m)"
    and sub: "\<And>p c'. p < length T \<Longrightarrow> \<exists>c\<in>set (node_children (T ! n)). below par c p \<Longrightarrow>
                c' \<in> set (node_children (T1 ! p)) \<Longrightarrow> indent (T' ! c') = indent (T' ! p) + 1"
    by (auto simp: T1_def)
  have not_up: "\<not> below par c n" if "c \<in> set (node_children (T ! n))" for c
  proof
    assume "below par c n"
    from below_le [OF shaped_le [OF sh] this] kids that shaped_less [OF sh, of c]
    show False by auto
  qed
  have a: "same_shape T T'" using ss1 ss2 by (rule same_shape_trans)
  have b: "indent (T' ! n) = i"
    using frame [OF n] not_up T1n by simp
  have c: "indent (T' ! m) = indent (T ! m)" if m: "m < length T" and nb: "\<not> below par n m" for m
  proof -
    have "\<not> below par c m" if "c \<in> set (node_children (T ! n))" for c
    proof
      assume "below par c m"
      from below_parent [OF this] kids that nb show False by auto
    qed
    with frame [OF m] have "indent (T' ! m) = indent (T1 ! m)" by blast
    moreover from nb below_refl have "m \<noteq> n" by metis
    ultimately show ?thesis by (simp add: T1m)
  qed
  have d: "indent (T' ! c) = indent (T' ! p) + 1"
    if p: "p < length T" and bl: "below par n p" and cp: "c \<in> set (node_children (T ! p))" for p c
  proof (cases "p = n")
    case True
    with cp ki b show ?thesis by simp
  next
    case False
    from bl obtain k where "(par ^^ k) p = n" unfolding below_def by blast
    from below_child [OF sh n this False p]
    have "\<exists>c\<in>set (node_children (T ! n)). below par c p" .
    moreover from cp False have "c \<in> set (node_children (T1 ! p))" by (simp add: T1m)
    ultimately show ?thesis using sub [OF p] by blast
  qed
  from a b c d show ?case by blast
next
  case (3 d T i)
  then show ?case by (simp add: same_shape_refl)
next
  case (4 d T c cs i)
  note sh = \<open>shaped par T\<close>
  from "4.prems"(2) have c: "0 < c" "c < length T" "par c = n'"
    and cs: "\<forall>c\<in>set cs. 0 < c \<and> c < length T \<and> par c = n'" by auto
  from "4.prems"(3) obtain T1 where run1: "normalize_indentation d T c i = Inr T1"
    and run2: "normalize_children d T1 cs i = Inr T'"
    by (auto split: sum.splits)
  from "4.IH"(1) [OF sh c(2) run1]
  have ss1: "same_shape T T1" and ic: "indent (T1 ! c) = i"
    and frame1: "\<And>m. m < length T \<Longrightarrow> \<not> below par c m \<Longrightarrow> indent (T1 ! m) = indent (T ! m)"
    and sub1: "\<And>p c'. p < length T \<Longrightarrow> below par c p \<Longrightarrow> c' \<in> set (node_children (T ! p)) \<Longrightarrow>
                 indent (T1 ! c') = indent (T1 ! p) + 1"
    by auto
  have sh1: "shaped par T1" using sh ss1 by (rule shaped_same)
  from ss1 have len1: "length T1 = length T"
    and ch1: "\<And>m. m < length T \<Longrightarrow> node_children (T1 ! m) = node_children (T ! m)"
    by (auto simp: same_shape_def)
  from cs have cs1: "\<forall>c\<in>set cs. 0 < c \<and> c < length T1 \<and> par c = n'" by (simp add: len1)
  from "4.IH"(2) [OF run1 sh1 cs1 run2]
  have ss2: "same_shape T1 T'"
    and ki2: "\<And>c2. c2 \<in> set cs \<Longrightarrow> indent (T' ! c2) = i"
    and frame2: "\<And>m. m < length T \<Longrightarrow> \<forall>c2\<in>set cs. \<not> below par c2 m \<Longrightarrow>
                   indent (T' ! m) = indent (T1 ! m)"
    and sub2: "\<And>p c'. p < length T \<Longrightarrow> \<exists>c2\<in>set cs. below par c2 p \<Longrightarrow>
                 c' \<in> set (node_children (T ! p)) \<Longrightarrow> indent (T' ! c') = indent (T' ! p) + 1"
    by (auto simp: len1 ch1)
  have a: "same_shape T T'" using ss1 ss2 by (rule same_shape_trans)
  have b: "indent (T' ! x) = i" if "x \<in> set (c # cs)" for x
  proof (cases "x \<in> set cs")
    case True
    then show ?thesis by (rule ki2)
  next
    case False
    with that have x: "x = c" by simp
    have "\<not> below par c2 c" if c2: "c2 \<in> set cs" for c2
    proof
      assume bl: "below par c2 c"
      from cs c2 have "0 < c2" "par c2 = par c" using c by auto
      from siblings_apart [OF sh this(1) c(1) this(2) bl below_refl] c2 False x
      show False by simp
    qed
    with frame2 [OF c(2)] ic x show ?thesis by simp
  qed
  have cc: "indent (T' ! m) = indent (T ! m)"
    if "m < length T" "\<forall>x\<in>set (c # cs). \<not> below par x m" for m
    using frame2 [of m] frame1 [of m] that by simp
  have d: "indent (T' ! c') = indent (T' ! p) + 1"
    if p: "p < length T" and bl: "\<exists>x\<in>set (c # cs). below par x p"
      and c': "c' \<in> set (node_children (T ! p))" for p c'
  proof (cases "\<exists>c2\<in>set cs. below par c2 p")
    case True
    from sub2 [OF p True c'] show ?thesis .
  next
    case False
    with bl have blc: "below par c p" by auto
    from shaped_children [OF sh p] c' have c'p: "0 < c'" "c' < length T" "par c' = p" by auto
    have "\<not> below par c2 c'" if c2: "c2 \<in> set cs" for c2
    proof
      assume b2: "below par c2 c'"
      show False
      proof (cases "c2 = c'")
        case True
        with cs c2 c'p have "p = n'" by auto
        with below_le [OF shaped_le [OF sh] blc] c shaped_less [OF sh c(1)] show False by simp
      next
        case ne: False
        from below_upper [OF b2 ne] c'p c2 False show False by auto
      qed
    qed
    with frame2 [OF c'p(2)] have "indent (T' ! c') = indent (T1 ! c')" by blast
    moreover from frame2 [OF p] False have "indent (T' ! p) = indent (T1 ! p)" by blast
    ultimately show ?thesis using sub1 [OF p blc c'] by simp
  qed
  from a b cc d show ?case by blast
qed

lemma normalize_total:
  fixes par :: "nat \<Rightarrow> nat"
  shows "shaped par T \<Longrightarrow> n < length T \<Longrightarrow> length T \<le> d + n \<Longrightarrow>
           \<exists>T'. normalize_indentation d T n i = Inr T'"
  and "shaped par T \<Longrightarrow> \<forall>c\<in>set cs. 0 < c \<and> c < length T \<and> par c = n' \<and> length T \<le> d + c \<Longrightarrow>
           \<exists>T'. normalize_children d T cs i = Inr T'"
proof (induction d T n i and d T cs i arbitrary: and n'
       rule: normalize_indentation_normalize_children.induct)
  case (1 T n current_indent)
  then show ?case by simp
next
  case (2 d T n i)
  note sh = \<open>shaped par T\<close> and n = \<open>n < length T\<close>
  define T1 where "T1 = T[n := (T ! n)\<lparr>indent := i\<rparr>]"
  have ss1: "same_shape T T1"
    using n by (auto simp: same_shape_def T1_def nth_list_update)
  have sh1: "shaped par T1" using sh ss1 by (rule shaped_same)
  have kids: "\<forall>c\<in>set (node_children (T ! n)).
                0 < c \<and> c < length T1 \<and> par c = n \<and> length T1 \<le> d + c"
  proof
    fix c assume "c \<in> set (node_children (T ! n))"
    with shaped_children [OF sh n] have c: "0 < c" "c < length T" "par c = n" by auto
    with shaped_less [OF sh c(1)] "2.prems"(3) show
      "0 < c \<and> c < length T1 \<and> par c = n \<and> length T1 \<le> d + c"
      by (simp add: T1_def)
  qed
  from "2.IH" [OF sh1 [unfolded T1_def] kids [unfolded T1_def]] show ?case by simp
next
  case (3 d T i)
  then show ?case by simp
next
  case (4 d T c cs i)
  note sh = \<open>shaped par T\<close>
  from "4.prems"(2) have c: "0 < c" "c < length T" "par c = n'" "length T \<le> d + c"
    and cs: "\<forall>c\<in>set cs. 0 < c \<and> c < length T \<and> par c = n' \<and> length T \<le> d + c" by auto
  from "4.IH"(1) [OF sh c(2) c(4)] obtain T1 where run1: "normalize_indentation d T c i = Inr T1"
    by blast
  from normalize_post(1) [OF sh c(2) run1] have ss1: "same_shape T T1" by blast
  then have len1: "length T1 = length T" by (simp add: same_shape_def)
  have sh1: "shaped par T1" using sh ss1 by (rule shaped_same)
  from cs have cs1: "\<forall>c\<in>set cs. 0 < c \<and> c < length T1 \<and> par c = n' \<and> length T1 \<le> d + c"
    by (simp add: len1)
  from "4.IH"(2) [OF run1 sh1 cs1] run1 show ?case by simp
qed

lemma normalize_error:
  "normalize_indentation d T n i = Inl e \<Longrightarrow> e = RecursionError"
  "normalize_children d T cs i = Inl e \<Longrightarrow> e = RecursionError"
  by (induction d T n i and d T cs i
      rule: normalize_indentation_normalize_children.induct)
     (auto split: sum.splits)

lemma all_below_root: "shaped par T \<Longrightarrow> below par 0 p"
proof (induction p rule: less_induct)
  case (less p)
  show ?case
  proof (cases "p = 0")
    case True
    then show ?thesis by (simp add: below_refl)
  next
    case False
    with shaped_less [OF less.prems, of p] have "par p < p" by simp
    from less.IH [OF this less.prems] show ?thesis by (rule below_step)
  qed
qed

lemma parse_inv_shaped:
  assumes "parse_inv is T stack"
  shows "shaped (\<lambda>c. expected_parent is (c - 1)) T"
  unfolding shaped_def
proof (intro conjI allI impI)
  fix p assume "p < length T"
  with assms have "node_children (T ! p) =
      filter (\<lambda>c. expected_parent is (c - 1) = p) [1..<length T]"
    by (simp add: parse_inv_def)
  then show "set (node_children (T ! p)) =
      {c. 0 < c \<and> c < length T \<and> expected_parent is (c - 1) = p}"
    by auto
next
  fix c :: nat
  show "expected_parent is (c - 1) \<le> c"
    using expected_parent_le [of "is" "c - 1"] by simp
next
  fix c :: nat assume "0 < c"
  then show "expected_parent is (c - 1) \<noteq> c"
    using expected_parent_le [of "is" "c - 1"] by simp
qed

lemma parse_lines_start:
  "case parse_lines lines ([IndentationTree (- 1) []], [0]) of
     Inr (T, stack) \<Rightarrow>
       parse_inv (map raw_indent lines) T stack \<and>
       (\<forall>k<length lines. node_text (T ! Suc k) = line_text (lines ! k)) \<and>
       (\<forall>l\<in>set lines. indent_regex_match l \<noteq> None)
   | Inl e \<Rightarrow> e = TypeError \<and> (\<exists>l\<in>set lines. indent_regex_match l = None)"
  using parse_lines_inv [of "[]" "[IndentationTree (- 1) []]" "[0]" lines] parse_inv_initial
  unfolding append_Nil by simp

text \<open>
  Claim C7. Whatever the lines, when \<open>parse\<close> returns a tree it has one node for each
  line, in the order of the lines; the parent of a line's node is the node of the nearest
  preceding line whose raw indent is strictly smaller, or the root when no preceding line
  has a smaller indent (so a line with the indent of an open line becomes its sibling);
  and after the normalization the root has depth -1 and the children of every node have
  the depth of the node plus one, whatever the column widths were.
\<close>

theorem IndentationTree_parse_shape:
  assumes "IndentationTree_parse d lines = Inr T"
  shows "length T = Suc (length lines) \<and>
         (\<forall>k<length lines. node_text (T ! Suc k) = line_text (lines ! k)) \<and>
         (\<forall>p<length T. node_children (T ! p) =
            filter (\<lambda>c. expected_parent (map raw_indent lines) (c - 1) = p) [1..<length T]) \<and>
         indent (T ! 0) = - 1 \<and>
         (\<forall>p<length T. \<forall>c\<in>set (node_children (T ! p)). indent (T ! c) = indent (T ! p) + 1)"
proof -
  define par where "par = (\<lambda>c. expected_parent (map raw_indent lines) (c - 1))"
  from assms obtain T0 stack where
    lines: "parse_lines lines ([IndentationTree (- 1) []], [0]) = Inr (T0, stack)"
    and norm: "normalize_indentation d T0 0 (- 1) = Inr T"
    by (auto simp: IndentationTree_parse_def split: sum.splits)
  from parse_lines_start [of lines] lines
  have inv: "parse_inv (map raw_indent lines) T0 stack"
    and texts: "\<forall>k<length lines. node_text (T0 ! Suc k) = line_text (lines ! k)"
    by auto
  from inv have len0: "length T0 = Suc (length lines)"
    and ch0: "\<forall>p<length T0. node_children (T0 ! p) = filter (\<lambda>c. par c = p) [1..<length T0]"
    by (auto simp: parse_inv_def par_def)
  have sh: "shaped par T0" unfolding par_def using inv by (rule parse_inv_shaped)
  from len0 have root: "0 < length T0" by simp
  from normalize_post(1) [OF sh root norm]
  have ss: "same_shape T0 T" and r: "indent (T ! 0) = - 1"
    and sub: "\<forall>p<length T0. below par 0 p \<longrightarrow>
                (\<forall>c\<in>set (node_children (T0 ! p)). indent (T ! c) = indent (T ! p) + 1)"
    by blast+
  from ss have len: "length T = length T0"
    and same: "\<forall>m<length T0. node_children (T ! m) = node_children (T0 ! m) \<and>
                              node_text (T ! m) = node_text (T0 ! m)"
    by (auto simp: same_shape_def)
  have "length T = Suc (length lines)" using len len0 by simp
  moreover have "\<forall>k<length lines. node_text (T ! Suc k) = line_text (lines ! k)"
    using texts same len0 by simp
  moreover have "\<forall>p<length T. node_children (T ! p) =
            filter (\<lambda>c. expected_parent (map raw_indent lines) (c - 1) = p) [1..<length T]"
    using ch0 same len by (simp add: par_def)
  moreover have "\<forall>p<length T. \<forall>c\<in>set (node_children (T ! p)). indent (T ! c) = indent (T ! p) + 1"
    using sub same len all_below_root [OF sh] by simp
  ultimately show ?thesis using r by blast
qed

theorem IndentationTree_parse_shape_witness:
  "IndentationTree_parse 4 [''a'', ''    b'', ''  c'', ''   d'', ''e''] =
     Inr [\<lparr>indent = - 1, node_text = [], node_children = [1, 5]\<rparr>,
          \<lparr>indent = 0, node_text = ''a'', node_children = [2, 3]\<rparr>,
          \<lparr>indent = 1, node_text = ''b'', node_children = []\<rparr>,
          \<lparr>indent = 1, node_text = ''c'', node_children = [4]\<rparr>,
          \<lparr>indent = 2, node_text = ''d'', node_children = []\<rparr>,
          \<lparr>indent = 0, node_text = ''e'', node_children = []\<rparr>] \<and>
   map raw_indent [''a'', ''    b'', ''  c'', ''   d'', ''e''] = [0, 4, 2, 3, 0] \<and>
   map (expected_parent [0, 4, 2, 3, 0]) [0, 1, 2, 3, 4] = [0, 1, 1, 3, 0] \<and>
   length [\<lparr>indent = - 1, node_text = [], node_children = [1, 5]\<rparr>,
          \<lparr>indent = 0, node_text = ''a'', node_children = [2, 3]\<rparr>,
          \<lparr>indent = 1, node_text = ''b'', node_children = []\<rparr>,
          \<lparr>indent = 1, node_text = ''c'', node_children = [4]\<rparr>,
          \<lparr>indent = 2, node_text = ''d'', node_children = []\<rparr>,
          \<lparr>indent = 0, node_text = ''e'', node_children = []\<rparr>] =
     Suc (length [''a'', ''    b'', ''  c'', ''   d'', ''e''])"
proof -
  have run: "IndentationTree_parse 4 [''a'', ''    b'', ''  c'', ''   d'', ''e''] =
     Inr [\<lparr>indent = - 1, node_text = [], node_children = [1, 5]\<rparr>,
          \<lparr>indent = 0, node_text = ''a'', node_children = [2, 3]\<rparr>,
          \<lparr>indent = 1, node_text = ''b'', node_children = []\<rparr>,
          \<lparr>indent = 1, node_text = ''c'', node_children = [4]\<rparr>,
          \<lparr>indent = 2, node_text = ''d'', node_children = []\<rparr>,
          \<lparr>indent = 0, node_text = ''e'', node_children = []\<rparr>]"
    by code_simp
  have raw: "map raw_indent [''a'', ''    b'', ''  c'', ''   d'', ''e''] = [0, 4, 2, 3, 0]"
    by code_simp
  have par: "map (expected_parent [0, 4, 2, 3, 0]) [0, 1, 2, 3, 4] = [0, 1, 1, 3, 0]"
    by code_simp
  from IndentationTree_parse_shape [OF run] run raw par show ?thesis
    by blast
qed

text \<open>
  Claim C9 (amended). \<open>parse\<close> never fails on an access to its stack, whatever the lines:
  it raises no \<open>IndexError\<close>. The pattern matches a line exactly when what follows the
  leading white space contains no line feed, but for one that ends the line; a raw indent
  is never negative. When the pattern matches every line, \<open>parse\<close> returns a tree, given a
  recursion depth above the number of lines; when it fails to match a line, subscripting
  the match raises \<open>TypeError\<close>.
\<close>

theorem IndentationTree_parse_safe:
  "(\<forall>d lines. IndentationTree_parse d lines \<noteq> Inl IndexError) \<and>
   (\<forall>l. indent_regex_match l \<noteq> None \<longleftrightarrow> at_end (dropWhile dot (dropWhile regex_space l))) \<and>
   (\<forall>l. 0 \<le> raw_indent l) \<and>
   (\<forall>d lines. (\<forall>l\<in>set lines. indent_regex_match l \<noteq> None) \<and> length lines < d \<longrightarrow>
      (\<exists>T. IndentationTree_parse d lines = Inr T)) \<and>
   (\<forall>d lines. (\<exists>l\<in>set lines. indent_regex_match l = None) \<longrightarrow>
      IndentationTree_parse d lines = Inl TypeError)"
proof (intro conjI allI impI)
  fix d lines
  show "IndentationTree_parse d lines \<noteq> Inl IndexError"
    using parse_lines_start [of lines]
    by (auto simp: IndentationTree_parse_def split: sum.splits dest: normalize_error(1))
next
  fix l
  show "indent_regex_match l \<noteq> None \<longleftrightarrow> at_end (dropWhile dot (dropWhile regex_space l))"
    by (rule indent_regex_match_iff)
next
  fix l
  show "0 \<le> raw_indent l"
    by (simp add: raw_indent_def split: option.splits)
next
  fix d lines
  assume a: "(\<forall>l\<in>set lines. indent_regex_match l \<noteq> None) \<and> length lines < d"
  with parse_lines_start [of lines] obtain T0 stack where
    lines: "parse_lines lines ([IndentationTree (- 1) []], [0]) = Inr (T0, stack)"
    and inv: "parse_inv (map raw_indent lines) T0 stack"
    by (auto split: sum.splits)
  from inv have len: "length T0 = Suc (length lines)" by (simp add: parse_inv_def)
  from normalize_total(1) [OF parse_inv_shaped [OF inv], of 0 d "- 1"] len a
  obtain T where "normalize_indentation d T0 0 (- 1) = Inr T" by auto
  with lines show "\<exists>T. IndentationTree_parse d lines = Inr T"
    by (simp add: IndentationTree_parse_def)
next
  fix d lines
  assume "\<exists>l\<in>set lines. indent_regex_match l = None"
  with parse_lines_start [of lines] show "IndentationTree_parse d lines = Inl TypeError"
    by (auto simp: IndentationTree_parse_def split: sum.splits)
qed

theorem IndentationTree_parse_safe_witness:
  "list_all (\<lambda>l. indent_regex_match l \<noteq> None) [''a'', '' b''] \<and> length [''a'', '' b''] < (3::nat) \<and>
   IndentationTree_parse 3 [''a'', '' b''] =
     Inr [\<lparr>indent = - 1, node_text = [], node_children = [1]\<rparr>,
          \<lparr>indent = 0, node_text = ''a'', node_children = [2]\<rparr>,
          \<lparr>indent = 1, node_text = ''b'', node_children = []\<rparr>] \<and>
   IndentationTree_parse 3 [''a'', '' b''] \<noteq> Inl IndexError"
proof -
  have run: "IndentationTree_parse 3 [''a'', '' b''] =
     Inr [\<lparr>indent = - 1, node_text = [], node_children = [1]\<rparr>,
          \<lparr>indent = 0, node_text = ''a'', node_children = [2]\<rparr>,
          \<lparr>indent = 1, node_text = ''b'', node_children = []\<rparr>]"
    by code_simp
  have m: "list_all (\<lambda>l. indent_regex_match l \<noteq> None) [''a'', '' b'']"
    by code_simp
  from IndentationTree_parse_safe have "IndentationTree_parse 3 [''a'', '' b''] \<noteq> Inl IndexError"
    by blast
  with run m show ?thesis by simp
qed

theorem indent_pattern_counterexample:
  "indent_regex_match [CHR ''a'', newline, CHR ''b''] = None \<and>
   IndentationTree_parse 10 [[CHR ''a'', newline, CHR ''b'']] = Inl TypeError"
  by code_simp

section \<open>Membership and lookup\<close>

subsection \<open>The depth bound\<close>

lemma flatten_mono:
  "flatten_properties d h a = Inr f \<Longrightarrow> flatten_properties (Suc d) h a = Inr f"
  "flatten_bases d h bs props = Inr f \<Longrightarrow> flatten_bases (Suc d) h bs props = Inr f"
  by (induction d h a and d h bs props arbitrary: f and f
      rule: flatten_properties_flatten_bases.induct)
     (auto split: sum.splits)

lemma flatten_mono_le:
  "d \<le> d' \<Longrightarrow> flatten_properties d h a = Inr f \<Longrightarrow> flatten_properties d' h a = Inr f"
  by (induction d' rule: dec_induct) (blast intro: flatten_mono(1))+

lemma heap_okD: "heap_ok h \<Longrightarrow> a < length h \<Longrightarrow> bag_ok h a"
  by (simp add: heap_ok_def list_all_iff)

lemma bag_ok_bases: "bag_ok h a \<Longrightarrow> b \<in> set (bases (h ! a)) \<Longrightarrow> b < a"
  by (simp add: bag_ok_def list_all_iff)

lemma bag_ok_child:
  "bag_ok h a \<Longrightarrow> map_of (children (h ! a)) n = Some c \<Longrightarrow> c < length h \<and> bag_name (h ! c) = n"
  by (auto simp: bag_ok_def list_all_iff dest!: map_of_SomeD)

lemma flatten_total:
  "heap_ok h \<Longrightarrow> a < length h \<Longrightarrow> a < d \<Longrightarrow> \<exists>f. flatten_properties d h a = Inr f"
  "heap_ok h \<Longrightarrow> \<forall>b\<in>set bs. b < length h \<and> b < d \<Longrightarrow> \<exists>f. flatten_bases d h bs props = Inr f"
proof (induction d h a and d h bs props rule: flatten_properties_flatten_bases.induct)
  case (1 h self)
  then show ?case by simp
next
  case (2 d h self)
  have "\<forall>b\<in>set (bases (h ! self)). b < length h \<and> b < d"
    using bag_ok_bases [OF heap_okD [OF "2.prems"(1,2)]] "2.prems"(2,3) by fastforce
  from "2.IH" [OF "2.prems"(1) this] show ?case by auto
next
  case (3 d h properties)
  then show ?case by simp
next
  case (4 d h base_prop bs properties)
  from "4.prems" have b: "base_prop < length h" "base_prop < d"
    and bs: "\<forall>b\<in>set bs. b < length h \<and> b < d" by auto
  from "4.IH"(1) [OF "4.prems"(1) b] obtain g where g: "flatten_properties d h base_prop = Inr g"
    by blast
  from "4.IH"(2) [OF g "4.prems"(1) bs] g show ?case by simp
qed

lemma flattened_visible:
  assumes "heap_ok h" "a < length h" "a < d"
  shows "flattened d h a = visible h a"
proof -
  from flatten_total(1) [OF assms(1,2), of "Suc a"] obtain f where
    f: "flatten_properties (Suc a) h a = Inr f" by auto
  from assms(3) have "Suc a \<le> d" by simp
  from flatten_mono_le [OF this f] f show ?thesis
    by (intro ext) (simp add: visible_def flattened_def)
qed

lemma flatten_visible:
  assumes "heap_ok h" "a < length h" "flatten_properties d h a = Inr f"
  shows "map_of f = visible h a"
proof -
  from assms(3) have "a < d \<or> d \<le> a" by auto
  then show ?thesis
  proof
    assume "a < d"
    from flattened_visible [OF assms(1,2) this] assms(3) show ?thesis
      by (simp add: flattened_def)
  next
    assume "d \<le> a"
    then have "d \<le> Suc a" by simp
    from flatten_mono_le [OF this assms(3)] show ?thesis
      by (intro ext) (simp add: visible_def flattened_def)
  qed
qed

subsection \<open>What a bag shows\<close>

lemma foldl_overlay:
  "\<forall>b\<in>set bs. g b = visible h b \<Longrightarrow>
     foldl (\<lambda>m b. m ++ g b) Map.empty bs n = first_visible h (rev bs) n"
proof (induction bs rule: rev_induct)
  case Nil
  then show ?case by simp
next
  case (snoc b bs)
  then show ?case by (simp add: map_add_def split: option.splits)
qed

lemma flatten_properties_map:
  assumes run: "flatten_properties (Suc d) h self = Inr props"
    and dist: "distinct (map fst (children (h ! self)))"
  shows "map_of props =
           foldl (\<lambda>m b. m ++ flattened d h b) Map.empty (bases (h ! self))
             ++ map_of (children (h ! self))"
proof -
  from run obtain inherited where
    inh: "flatten_bases d h (bases (h ! self)) [] = Inr inherited"
    and props: "props = dict_set_all (children (h ! self)) inherited"
    by (auto split: sum.splits)
  from flatten_bases_overlay [OF inh] dist props show ?thesis
    by (simp add: map_of_dict_set_all)
qed

text \<open>A bag shows its own child of a name, and otherwise what the last of its bases that
  shows the name shows.\<close>

lemma visible_unfold:
  assumes ok: "heap_ok h" and a: "a < length h"
  shows "visible h a n =
           (case map_of (children (h ! a)) n of
              Some c \<Rightarrow> Some c
            | None \<Rightarrow> first_visible h (rev (bases (h ! a))) n)"
proof -
  from flatten_total(1) [OF ok a, of "Suc a"] obtain f where
    f: "flatten_properties (Suc a) h a = Inr f" by auto
  have bag: "bag_ok h a" using ok a by (rule heap_okD)
  then have dist: "distinct (map fst (children (h ! a)))" by (simp add: bag_ok_def)
  have "\<forall>b\<in>set (bases (h ! a)). flattened a h b = visible h b"
  proof
    fix b assume "b \<in> set (bases (h ! a))"
    with bag_ok_bases [OF bag] have "b < a" by simp
    with a flattened_visible [OF ok, of b a] show "flattened a h b = visible h b" by simp
  qed
  from foldl_overlay [OF this]
  have "foldl (\<lambda>m b. m ++ flattened a h b) Map.empty (bases (h ! a)) n =
          first_visible h (rev (bases (h ! a))) n" .
  with flatten_properties_map [OF f dist] f show ?thesis
    by (simp add: visible_def flattened_def map_add_def split: option.splits)
qed




subsection \<open>The caches\<close>

lemma list_all_lru_hit: "list_all P c \<Longrightarrow> P (k, v) \<Longrightarrow> list_all P (lru_hit k v c)"
  by (simp add: lru_hit_def list_all_iff)

lemma list_all_lru_store: "list_all P c \<Longrightarrow> P (k, v) \<Longrightarrow> list_all P (lru_store m k v c)"
  by (auto simp: lru_store_def list_all_iff dest: in_set_butlastD)

lemma list_all_map_of: "list_all P c \<Longrightarrow> map_of c k = Some v \<Longrightarrow> P (k, v)"
  by (auto simp: list_all_iff dest: map_of_SomeD)

lemma cache_ok_contains:
  "cache_ok s \<Longrightarrow> map_of (contains_cache s) (a, n) = Some r \<Longrightarrow>
     a < length (heap s) \<and> r = (visible (heap s) a n \<noteq> None)"
  unfolding cache_ok_def by (drule conjunct1) (drule (1) list_all_map_of, simp)

lemma cache_ok_getitem:
  "cache_ok s \<Longrightarrow> map_of (getitem_cache s) (a, n) = Some r \<Longrightarrow>
     a < length (heap s) \<and> r = visible (heap s) a n"
  unfolding cache_ok_def by (drule conjunct2) (drule (1) list_all_map_of, simp)

lemma cache_ok_contains_hit:
  assumes "cache_ok s" "a < length (heap s)" "r = (visible (heap s) a n \<noteq> None)"
  shows "cache_ok (s\<lparr>contains_cache := lru_hit (a, n) r (contains_cache s)\<rparr>)"
  using assms unfolding cache_ok_def by (simp add: list_all_lru_hit)

lemma cache_ok_contains_store:
  assumes "cache_ok s" "a < length (heap s)" "r = (visible (heap s) a n \<noteq> None)"
  shows "cache_ok (s\<lparr>contains_cache := lru_store m (a, n) r (contains_cache s)\<rparr>)"
  using assms unfolding cache_ok_def by (simp add: list_all_lru_store)

lemma cache_ok_getitem_hit:
  assumes "cache_ok s" "a < length (heap s)" "r = visible (heap s) a n"
  shows "cache_ok (s\<lparr>getitem_cache := lru_hit (a, n) r (getitem_cache s)\<rparr>)"
  using assms unfolding cache_ok_def by (simp add: list_all_lru_hit)

lemma cache_ok_getitem_store:
  assumes "cache_ok s" "a < length (heap s)" "r = visible (heap s) a n"
  shows "cache_ok (s\<lparr>getitem_cache := lru_store m (a, n) r (getitem_cache s)\<rparr>)"
  using assms unfolding cache_ok_def by (simp add: list_all_lru_store)

text \<open>With no stale entry in its cache, \<open>__contains__\<close> answers what the bag shows.\<close>

lemma contains_ok:
  assumes ok: "heap_ok (heap s)" and ck: "cache_ok s" and a: "a < length (heap s)" and d: "a < d"
  shows "\<exists>s'. contains d s a n = Inr (visible (heap s) a n \<noteq> None, s') \<and>
           heap s' = heap s \<and> cache_ok s' \<and> warnings s' = warnings s"
proof (cases "map_of (contains_cache s) (a, n)")
  case (Some r)
  with cache_ok_contains [OF ck Some] cache_ok_contains_hit [OF ck a, of r n]
  show ?thesis by (simp add: contains_def)
next
  case None
  from flatten_total(1) [OF ok a d] obtain f where f: "flatten_properties d (heap s) a = Inr f"
    by blast
  from flatten_visible [OF ok a f] have "dict_in n f = (visible (heap s) a n \<noteq> None)"
    by (simp add: dict_in_def)
  with None f cache_ok_contains_store [OF ck a, of "dict_in n f" n 16]
  show ?thesis by (simp add: contains_def Let_def)
qed

text \<open>And \<open>__getitem__\<close> returns what the bag shows.\<close>

lemma getitem_ok:
  "heap_ok (heap s) \<Longrightarrow> cache_ok s \<Longrightarrow> a < length (heap s) \<Longrightarrow> a < d \<Longrightarrow>
     \<exists>s'. getitem d s a n = Inr (visible (heap s) a n, s') \<and>
          heap s' = heap s \<and> cache_ok s' \<and> warnings s' = warnings s"
  "heap_ok (heap s) \<Longrightarrow> cache_ok s \<Longrightarrow> \<forall>b\<in>set bs. b < length (heap s) \<and> b < d \<Longrightarrow>
     \<exists>s'. getitem_bases d s bs n = Inr (first_visible (heap s) bs n, s') \<and>
          heap s' = heap s \<and> cache_ok s' \<and> warnings s' = warnings s"
proof (induction d s a n and d s bs n rule: getitem_getitem_bases.induct)
  case (1 s self item)
  then show ?case by simp
next
  case (2 d s self item)
  note ok = \<open>heap_ok (heap s)\<close> and ck = \<open>cache_ok s\<close> and a = \<open>self < length (heap s)\<close>
  show ?case
  proof (cases "map_of (getitem_cache s) (self, item)")
    case (Some r)
    with cache_ok_getitem [OF ck Some] cache_ok_getitem_hit [OF ck a, of r item]
    show ?thesis by simp
  next
    case miss: None
    show ?thesis
    proof (cases "map_of (children (heap s ! self)) item")
      case (Some child)
      with visible_unfold [OF ok a, of item] have "visible (heap s) self item = Some child" by simp
      with miss Some cache_ok_getitem_store [OF ck a, of "Some child" item 32]
      show ?thesis by simp
    next
      case None
      have older: "\<forall>b\<in>set (rev (bases (heap s ! self))). b < length (heap s) \<and> b < d"
        using bag_ok_bases [OF heap_okD [OF ok a]] a "2.prems"(4) by fastforce
      from "2.IH" [OF miss None ok ck older] obtain s' where
        run: "getitem_bases d s (rev (bases (heap s ! self))) item =
                Inr (first_visible (heap s) (rev (bases (heap s ! self))) item, s')"
        and s': "heap s' = heap s" "cache_ok s'" "warnings s' = warnings s"
        by blast
      from visible_unfold [OF ok a, of item] None
      have vis: "first_visible (heap s) (rev (bases (heap s ! self))) item = visible (heap s) self item"
        by simp
      from a s' have a': "self < length (heap s')" by simp
      from cache_ok_getitem_store [OF s'(2) a', of "visible (heap s) self item" item 32] s'
      have "cache_ok (s'\<lparr>getitem_cache :=
              lru_store 32 (self, item) (visible (heap s) self item) (getitem_cache s')\<rparr>)"
        by simp
      with miss None run vis s' show ?thesis by simp
    qed
  qed
next
  case (3 d s item)
  then show ?case by simp
next
  case (4 d s base bs item)
  note ok = \<open>heap_ok (heap s)\<close> and ck = \<open>cache_ok s\<close>
  from "4.prems"(3) have b: "base < length (heap s)" "base < d"
    and bs: "\<forall>b\<in>set bs. b < length (heap s) \<and> b < d" by auto
  from contains_ok [OF ok ck b, of item] obtain s1 where
    c: "contains d s base item = Inr (visible (heap s) base item \<noteq> None, s1)"
    and s1: "heap s1 = heap s" "cache_ok s1" "warnings s1 = warnings s"
    by blast
  show ?case
  proof (cases "visible (heap s) base item")
    case None
    with c have c': "contains d s base item = Inr (False, s1)" by simp
    from "4.IH"(2) [OF c' refl] ok s1 bs obtain s' where
      "getitem_bases d s1 bs item = Inr (first_visible (heap s) bs item, s')"
      "heap s' = heap s" "cache_ok s'" "warnings s' = warnings s"
      by (metis (no_types, lifting))
    with c' None show ?thesis by simp
  next
    case (Some x)
    with c have c': "contains d s base item = Inr (True, s1)" by simp
    from "4.IH"(1) [OF c' refl] ok s1 b obtain s' where
      "getitem d s1 base item = Inr (visible (heap s) base item, s')"
      "heap s' = heap s" "cache_ok s'" "warnings s' = warnings s"
      by (metis (no_types, lifting))
    with c' Some show ?thesis by simp
  qed
qed

lemma find_base_ok:
  "heap_ok (heap s) \<Longrightarrow> cache_ok s \<Longrightarrow> \<forall>p\<in>set ps. p < length (heap s) \<and> p < d \<Longrightarrow>
     \<exists>s'. find_base d s ps n = Inr (first_visible (heap s) ps n, s') \<and>
          heap s' = heap s \<and> cache_ok s' \<and> warnings s' = warnings s"
proof (induction ps arbitrary: s)
  case Nil
  then show ?case by simp
next
  case (Cons p ps)
  note ok = \<open>heap_ok (heap s)\<close> and ck = \<open>cache_ok s\<close>
  from Cons.prems(3) have p: "p < length (heap s)" "p < d"
    and ps: "\<forall>p\<in>set ps. p < length (heap s) \<and> p < d" by auto
  from contains_ok [OF ok ck p, of n] obtain s1 where
    c: "contains d s p n = Inr (visible (heap s) p n \<noteq> None, s1)"
    and s1: "heap s1 = heap s" "cache_ok s1" "warnings s1 = warnings s"
    by blast
  show ?case
  proof (cases "visible (heap s) p n")
    case None
    from Cons.IH [of s1] ok s1 ps obtain s' where
      "find_base d s1 ps n = Inr (first_visible (heap s) ps n, s')"
      "heap s' = heap s" "cache_ok s'" "warnings s' = warnings s"
      by (metis (no_types, lifting))
    with c None show ?thesis by simp
  next
    case (Some x)
    from getitem_ok(1) [of s1 p d n] ok s1 p obtain s' where
      "getitem d s1 p n = Inr (visible (heap s) p n, s')"
      "heap s' = heap s" "cache_ok s'" "warnings s' = warnings s"
      by (metis (no_types, lifting))
    with c Some show ?thesis by simp
  qed
qed

lemma resolve_base_ok:
  assumes ok: "heap_ok (heap s)" and ck: "cache_ok s"
    and ps: "\<forall>p\<in>set parents. p < length (heap s) \<and> p < d"
    and as: "\<forall>p\<in>set abstract_props. p < length (heap s) \<and> p < d"
  shows "\<exists>s'. resolve_base d s parents abstract_props n =
                Inr (resolve_visible (heap s) parents abstract_props n, s') \<and>
          heap s' = heap s \<and> cache_ok s' \<and> warnings s' = warnings s"
proof -
  from find_base_ok [OF ok ck ps, of n] obtain s1 where
    f: "find_base d s parents n = Inr (first_visible (heap s) parents n, s1)"
    and s1: "heap s1 = heap s" "cache_ok s1" "warnings s1 = warnings s"
    by blast
  show ?thesis
  proof (cases "first_visible (heap s) parents n")
    case (Some b)
    with f s1 show ?thesis by (simp add: resolve_base_def resolve_visible_def)
  next
    case None
    from find_base_ok [of s1 abstract_props d n] ok s1 as obtain s' where
      "find_base d s1 abstract_props n = Inr (first_visible (heap s) abstract_props n, s')"
      "heap s' = heap s" "cache_ok s'" "warnings s' = warnings s"
      by (metis (no_types, lifting))
    with f None show ?thesis by (simp add: resolve_base_def resolve_visible_def)
  qed
qed

text \<open>
  In a state whose caches hold no stale answer, and on a well-formed heap, the membership
  test of a bag for a name is true if and only if the indexer returns a bag: both return
  what the bag shows under the name.
\<close>

lemma contains_iff_getitem:
  assumes "heap_ok (heap s)" and "cache_ok s" and "self < length (heap s)" and "self < d"
  shows "\<exists>found r s1 s2 s3.
           contains d s self item = Inr (found, s1) \<and>
           getitem d s self item = Inr (r, s2) \<and>
           getitem d s1 self item = Inr (r, s3) \<and>
           (found \<longleftrightarrow> r \<noteq> None) \<and> r = visible (heap s) self item"
proof -
  from contains_ok [OF assms, of item] obtain s1 where
    c: "contains d s self item = Inr (visible (heap s) self item \<noteq> None, s1)"
    and s1: "heap s1 = heap s" "cache_ok s1" by blast
  from getitem_ok(1) [OF assms, of item] obtain s2 where
    g: "getitem d s self item = Inr (visible (heap s) self item, s2)" by blast
  from getitem_ok(1) [of s1 self d item] assms s1 obtain s3 where
    g1: "getitem d s1 self item = Inr (visible (heap s) self item, s3)" by auto
  from c g g1 show ?thesis by blast
qed

lemma contains_iff_getitem_example:
  "heap_ok (heap example_bags) \<and> cache_ok example_bags \<and> 6 < length (heap example_bags) \<and>
   (6::nat) < 7 \<and>
   (\<exists>found r s1 s2 s3.
           contains 7 example_bags 6 ''foo'' = Inr (found, s1) \<and>
           getitem 7 example_bags 6 ''foo'' = Inr (r, s2) \<and>
           getitem 7 s1 6 ''foo'' = Inr (r, s3) \<and>
           (found \<longleftrightarrow> r \<noteq> None) \<and> r = visible (heap example_bags) 6 ''foo'')"
proof -
  have h: "heap_ok (heap example_bags)" by code_simp
  have c: "cache_ok example_bags" by code_simp
  have l: "6 < length (heap example_bags)" by code_simp
  have d: "(6::nat) < 7" by simp
  from contains_iff_getitem [OF h c l d, of "''foo''"] h c l d show ?thesis by blast
qed

lemma after_same_name_test_eval:
  "after_same_name_test =
     \<lparr>heap =
        [\<lparr>bag_name = ''root'', bag_value = [], bases = [],
            children = [(''foo'', 2), (''a'', 5), (''b'', 10)]\<rparr>,
         \<lparr>bag_name = ''abstract'', bag_value = [], bases = [], children = []\<rparr>,
         \<lparr>bag_name = ''foo'', bag_value = [], bases = [], children = [(''bar'', 4)]\<rparr>,
         \<lparr>bag_name = ''abstract'', bag_value = [], bases = [], children = []\<rparr>,
         \<lparr>bag_name = ''bar'', bag_value = ''in base'', bases = [], children = []\<rparr>,
         \<lparr>bag_name = ''a'', bag_value = [], bases = [], children = [(''foo'', 7)]\<rparr>,
         \<lparr>bag_name = ''abstract'', bag_value = [], bases = [], children = []\<rparr>,
         \<lparr>bag_name = ''foo'', bag_value = [], bases = [2], children = [(''bar'', 9)]\<rparr>,
         \<lparr>bag_name = ''abstract'', bag_value = [], bases = [], children = []\<rparr>,
         \<lparr>bag_name = ''bar'', bag_value = ''overridden'', bases = [], children = []\<rparr>,
         \<lparr>bag_name = ''b'', bag_value = [], bases = [], children = [(''foo'', 12)]\<rparr>,
         \<lparr>bag_name = ''abstract'', bag_value = [], bases = [], children = []\<rparr>,
         \<lparr>bag_name = ''foo'', bag_value = [], bases = [2], children = []\<rparr>,
         \<lparr>bag_name = ''abstract'', bag_value = [], bases = [], children = []\<rparr>],
      contains_cache = [((0, ''foo''), True), ((10, ''foo''), False), ((5, ''foo''), False)],
      getitem_cache = [((0, ''foo''), Some 2)], warnings = []\<rparr>"
  by code_simp

text \<open>
  Claim C4: the membership test of a bag for a name is true if and only if the indexer
  returns a bag. The code does not keep this once a bag has been asked and then changed:
  \<open>add\<close> leaves the answers that \<open>lru_cache\<close> holds for \<open>__contains__\<close> and
  \<open>__getitem__\<close> in place. The bag \<open>b\<close> is asked for \<open>x\<close>, which it has not, and then
  receives the child \<open>x\<close>: the membership test still answers no, while the indexer, asked
  for the first time, returns the child. The same happens in a parse. After the lines
  \<open>foo\<close>, \<open>bar = in base\<close>, \<open>a\<close>, \<open>foo ::\<close>, \<open>bar = overridden\<close>, \<open>b\<close>, \<open>foo ::\<close> the
  bag \<open>a\<close> (address 5) has the child \<open>foo\<close> (address 7) and the indexer returns it, but
  the membership test of \<open>a\<close> for \<open>foo\<close> answers no: the parser asked it while it resolved
  the clause of that child, before the child was added.
\<close>

theorem stale_membership_divergence:
  "map_of (children (heap asked_early ! 0)) ''x'' = Some 1 \<and>
   map_sum id fst (contains 5 asked_early 0 ''x'') = Inr False \<and>
   map_sum id fst (getitem 5 asked_early 0 ''x'') = Inr (Some 1) \<and>
   map_of (children (heap after_same_name_test ! 5)) ''foo'' = Some 7 \<and>
   map_sum id fst (contains 50 after_same_name_test 5 ''foo'') = Inr False \<and>
   map_sum id fst (getitem 50 after_same_name_test 5 ''foo'') = Inr (Some 7)"
  unfolding after_same_name_test_eval by code_simp

text \<open>
  Claim C2 (amended). In a state whose caches hold no stale answer, the base of an
  inheritance clause is found by going through the concrete stack from the current parent
  outwards to the root and taking, from the first bag that shows the name, what it shows:
  its own child of that name, or else what it inherits under that name (from the last of
  its bases that shows it). Only when no bag of the concrete stack shows the name is the
  abstract stack gone through in the same way, from the current level outwards. The
  search changes neither the heap nor the warnings.
\<close>

theorem resolve_base_rule:
  assumes "heap_ok (heap s)" and "cache_ok s"
    and "\<forall>p\<in>set (parents @ abstract_props). p < length (heap s)"
    and "length (heap s) \<le> d"
  shows "(\<exists>s'. resolve_base d s parents abstract_props base_name =
                 Inr (resolve_visible (heap s) parents abstract_props base_name, s') \<and>
               heap s' = heap s \<and> warnings s' = warnings s \<and> cache_ok s') \<and>
         (\<forall>p\<in>set (parents @ abstract_props).
            visible (heap s) p base_name =
              (case map_of (children (heap s ! p)) base_name of
                 Some c \<Rightarrow> Some c
               | None \<Rightarrow> first_visible (heap s) (rev (bases (heap s ! p))) base_name))"
proof
  have ps: "\<forall>p\<in>set parents. p < length (heap s) \<and> p < d"
  proof
    fix p assume "p \<in> set parents"
    with assms(3) have "p < length (heap s)" by simp
    with assms(4) show "p < length (heap s) \<and> p < d" by simp
  qed
  have as: "\<forall>p\<in>set abstract_props. p < length (heap s) \<and> p < d"
  proof
    fix p assume "p \<in> set abstract_props"
    with assms(3) have "p < length (heap s)" by simp
    with assms(4) show "p < length (heap s) \<and> p < d" by simp
  qed
  from resolve_base_ok [OF assms(1,2) ps as, of base_name]
  show "\<exists>s'. resolve_base d s parents abstract_props base_name =
                 Inr (resolve_visible (heap s) parents abstract_props base_name, s') \<and>
               heap s' = heap s \<and> warnings s' = warnings s \<and> cache_ok s'"
    by blast
next
  show "\<forall>p\<in>set (parents @ abstract_props).
            visible (heap s) p base_name =
              (case map_of (children (heap s ! p)) base_name of
                 Some c \<Rightarrow> Some c
               | None \<Rightarrow> first_visible (heap s) (rev (bases (heap s ! p))) base_name)"
    using visible_unfold [OF assms(1)] assms(3) by blast
qed

lemma before_y_eval:
  "before_y =
     \<lparr>heap =
        [\<lparr>bag_name = ''root'', bag_value = [], bases = [],
            children = [(''base'', 2), (''derived'', 6)]\<rparr>,
         \<lparr>bag_name = ''abstract'', bag_value = [], bases = [], children = []\<rparr>,
         \<lparr>bag_name = ''base'', bag_value = [], bases = [], children = [(''x'', 4)]\<rparr>,
         \<lparr>bag_name = ''abstract'', bag_value = [], bases = [], children = []\<rparr>,
         \<lparr>bag_name = ''x'', bag_value = [], bases = [], children = []\<rparr>,
         \<lparr>bag_name = ''abstract'', bag_value = [], bases = [], children = []\<rparr>,
         \<lparr>bag_name = ''derived'', bag_value = [], bases = [2], children = []\<rparr>,
         \<lparr>bag_name = ''abstract'', bag_value = [], bases = [], children = []\<rparr>],
      contains_cache = [((0, ''base''), True)],
      getitem_cache = [((0, ''base''), Some 2)], warnings = []\<rparr>"
  by code_simp

theorem resolve_base_rule_witness:
  "heap_ok (heap before_y) \<and> cache_ok before_y \<and>
   list_all (\<lambda>p. p < length (heap before_y)) ([6, 0] @ [7, 1]) \<and>
   length (heap before_y) \<le> 50 \<and>
   resolve_visible (heap before_y) [6, 0] [7, 1] ''x'' = Some 4 \<and>
   (\<exists>s'. resolve_base 50 before_y [6, 0] [7, 1] ''x'' = Inr (Some 4, s'))"
proof -
  have h: "heap_ok (heap before_y)" unfolding before_y_eval by code_simp
  have c: "cache_ok before_y" unfolding before_y_eval by code_simp
  have l: "list_all (\<lambda>p. p < length (heap before_y)) ([6, 0] @ [7, 1])"
    unfolding before_y_eval by code_simp
  then have l': "\<forall>p\<in>set ([6, 0] @ [7, 1]). p < length (heap before_y)"
    by (simp only: list_all_iff)
  have d: "length (heap before_y) \<le> 50" unfolding before_y_eval by code_simp
  have v: "resolve_visible (heap before_y) [6, 0] [7, 1] ''x'' = Some 4"
    unfolding before_y_eval by code_simp
  from resolve_base_rule [OF h c l' d, of "''x''"] v
  have "\<exists>s'. resolve_base 50 before_y [6, 0] [7, 1] ''x'' = Inr (Some 4, s')"
    by auto
  with h c l d v show ?thesis by (intro conjI)
qed

theorem resolve_direct_counterexample:
  "map_sum id fst (resolve_base 50 before_y [6, 0] [7, 1] ''x'') = Inr (Some 4) \<and>
   resolve_direct (heap before_y) [6, 0] [7, 1] ''x'' = None \<and>
   map_sum id (\<lambda>rs. bases (heap (snd rs) ! 8))
     (from_lines 50 [''base'', ''  x'', ''derived :: base'', ''  y :: x'']) = Inr [4]"
proof -
  have "map_sum id fst (resolve_base 50 before_y [6, 0] [7, 1] ''x'') = Inr (Some 4)"
    unfolding before_y_eval by code_simp
  moreover have "resolve_direct (heap before_y) [6, 0] [7, 1] ''x'' = None"
    unfolding before_y_eval by code_simp
  moreover have "map_sum id (\<lambda>rs. bases (heap (snd rs) ! 8))
     (from_lines 50 [''base'', ''  x'', ''derived :: base'', ''  y :: x'']) = Inr [4]"
    by code_simp
  ultimately show ?thesis by (intro conjI)
qed

subsection \<open>Entries of the caches\<close>











section \<open>The parser\<close>

subsection \<open>Resolution on a well-formed heap\<close>

lemma contains_frame:
  "contains d s a n = Inr (r, s') \<Longrightarrow>
     heap s' = heap s \<and> getitem_cache s' = getitem_cache s \<and> warnings s' = warnings s"
  by (auto simp: contains_def Let_def split: option.splits sum.splits)

lemma contains_total:
  assumes "heap_ok (heap s)" "a < length (heap s)" "a < d"
  shows "\<exists>r s'. contains d s a n = Inr (r, s')"
proof -
  from flatten_total(1) [OF assms] obtain f where "flatten_properties d (heap s) a = Inr f"
    by blast
  then show ?thesis by (simp add: contains_def Let_def split: option.splits)
qed

lemma cache_valid_frame:
  "heap s' = heap s \<Longrightarrow> getitem_cache s' = getitem_cache s \<Longrightarrow> cache_valid s' = cache_valid s"
  by (simp add: cache_valid_def)

lemma cache_valid_entry:
  "cache_valid s \<Longrightarrow> map_of (getitem_cache s) (a, n) = Some (Some c) \<Longrightarrow>
     c < length (heap s) \<and> bag_name (heap s ! c) = n"
  unfolding cache_valid_def by (drule (1) list_all_map_of) (simp add: entry_valid_def)

lemma cache_valid_hit:
  "cache_valid s \<Longrightarrow> map_of (getitem_cache s) (a, n) = Some r \<Longrightarrow>
     cache_valid (s\<lparr>getitem_cache := lru_hit (a, n) r (getitem_cache s)\<rparr>)"
  unfolding cache_valid_def
  by (frule (1) list_all_map_of) (simp add: list_all_lru_hit)

lemma cache_valid_store:
  "cache_valid s \<Longrightarrow> \<forall>c. r = Some c \<longrightarrow> c < length (heap s) \<and> bag_name (heap s ! c) = n \<Longrightarrow>
     cache_valid (s\<lparr>getitem_cache := lru_store m (a, n) r (getitem_cache s)\<rparr>)"
  unfolding cache_valid_def
  by (simp add: list_all_lru_store entry_valid_def split: option.splits)

text \<open>Whatever the caches hold, as long as their entries are valid: with enough depth
  \<open>__getitem__\<close> returns, and what it returns is a bag of the heap that bears the name.\<close>

lemma getitem_valid:
  "heap_ok (heap s) \<Longrightarrow> cache_valid s \<Longrightarrow> a < length (heap s) \<Longrightarrow> a < d \<Longrightarrow>
     \<exists>r s'. getitem d s a n = Inr (r, s') \<and> heap s' = heap s \<and> warnings s' = warnings s \<and>
       cache_valid s' \<and> (\<forall>c. r = Some c \<longrightarrow> c < length (heap s) \<and> bag_name (heap s ! c) = n)"
  "heap_ok (heap s) \<Longrightarrow> cache_valid s \<Longrightarrow> \<forall>b\<in>set bs. b < length (heap s) \<and> b < d \<Longrightarrow>
     \<exists>r s'. getitem_bases d s bs n = Inr (r, s') \<and> heap s' = heap s \<and> warnings s' = warnings s \<and>
       cache_valid s' \<and> (\<forall>c. r = Some c \<longrightarrow> c < length (heap s) \<and> bag_name (heap s ! c) = n)"
proof (induction d s a n and d s bs n rule: getitem_getitem_bases.induct)
  case (1 s self item)
  then show ?case by simp
next
  case (2 d s self item)
  note ok = \<open>heap_ok (heap s)\<close> and cv = \<open>cache_valid s\<close> and a = \<open>self < length (heap s)\<close>
  show ?case
  proof (cases "map_of (getitem_cache s) (self, item)")
    case (Some r)
    have "\<forall>c. r = Some c \<longrightarrow> c < length (heap s) \<and> bag_name (heap s ! c) = item"
      using cache_valid_entry [OF cv, of self item] Some by simp
    with Some cache_valid_hit [OF cv Some] show ?thesis by simp
  next
    case miss: None
    show ?thesis
    proof (cases "map_of (children (heap s ! self)) item")
      case (Some child)
      from bag_ok_child [OF heap_okD [OF ok a] Some]
      have v: "\<forall>c. Some child = Some c \<longrightarrow> c < length (heap s) \<and> bag_name (heap s ! c) = item"
        by simp
      from miss Some v cache_valid_store [OF cv v, of 32 self] show ?thesis by simp
    next
      case None
      have older: "\<forall>b\<in>set (rev (bases (heap s ! self))). b < length (heap s) \<and> b < d"
        using bag_ok_bases [OF heap_okD [OF ok a]] a "2.prems"(4) by fastforce
      from "2.IH" [OF miss None ok cv older] obtain r s1 where
        run: "getitem_bases d s (rev (bases (heap s ! self))) item = Inr (r, s1)"
        and s1: "heap s1 = heap s" "warnings s1 = warnings s" "cache_valid s1"
        and v: "\<forall>c. r = Some c \<longrightarrow> c < length (heap s) \<and> bag_name (heap s ! c) = item"
        by blast
      from v s1 have v1: "\<forall>c. r = Some c \<longrightarrow> c < length (heap s1) \<and> bag_name (heap s1 ! c) = item"
        by simp
      from cache_valid_store [OF s1(3) v1, of 32 self] miss None run s1 v show ?thesis by simp
    qed
  qed
next
  case (3 d s item)
  then show ?case by simp
next
  case (4 d s base bs item)
  note ok = \<open>heap_ok (heap s)\<close> and cv = \<open>cache_valid s\<close>
  from "4.prems"(3) have b: "base < length (heap s)" "base < d"
    and bs: "\<forall>b\<in>set bs. b < length (heap s) \<and> b < d" by auto
  from contains_total [OF ok b, of item] obtain found s1 where
    c: "contains d s base item = Inr (found, s1)" by blast
  from contains_frame [OF c] have s1: "heap s1 = heap s" "getitem_cache s1 = getitem_cache s"
    "warnings s1 = warnings s" by auto
  from cache_valid_frame [OF s1(1,2)] cv have cv1: "cache_valid s1" by simp
  show ?case
  proof (cases found)
    case True
    from "4.IH"(1) [OF c refl True] ok cv1 b s1 obtain r s' where
      "getitem d s1 base item = Inr (r, s')" "heap s' = heap s" "warnings s' = warnings s"
      "cache_valid s'" "\<forall>c. r = Some c \<longrightarrow> c < length (heap s) \<and> bag_name (heap s ! c) = item"
      by (metis (no_types, lifting))
    with c True show ?thesis by simp
  next
    case False
    from "4.IH"(2) [OF c refl False] ok cv1 bs s1 obtain r s' where
      "getitem_bases d s1 bs item = Inr (r, s')" "heap s' = heap s" "warnings s' = warnings s"
      "cache_valid s'" "\<forall>c. r = Some c \<longrightarrow> c < length (heap s) \<and> bag_name (heap s ! c) = item"
      by (metis (no_types, lifting))
    with c False show ?thesis by simp
  qed
qed

lemma find_base_valid:
  "heap_ok (heap s) \<Longrightarrow> cache_valid s \<Longrightarrow> \<forall>p\<in>set ps. p < length (heap s) \<and> p < d \<Longrightarrow>
     \<exists>r s'. find_base d s ps n = Inr (r, s') \<and> heap s' = heap s \<and> warnings s' = warnings s \<and>
       cache_valid s' \<and> (\<forall>c. r = Some c \<longrightarrow> c < length (heap s) \<and> bag_name (heap s ! c) = n)"
proof (induction ps arbitrary: s)
  case Nil
  then show ?case by simp
next
  case (Cons p ps)
  note ok = \<open>heap_ok (heap s)\<close> and cv = \<open>cache_valid s\<close>
  from Cons.prems(3) have p: "p < length (heap s)" "p < d"
    and ps: "\<forall>p\<in>set ps. p < length (heap s) \<and> p < d" by auto
  from contains_total [OF ok p, of n] obtain found s1 where
    c: "contains d s p n = Inr (found, s1)" by blast
  from contains_frame [OF c] have s1: "heap s1 = heap s" "getitem_cache s1 = getitem_cache s"
    "warnings s1 = warnings s" by auto
  from cache_valid_frame [OF s1(1,2)] cv have cv1: "cache_valid s1" by simp
  show ?case
  proof (cases found)
    case True
    from getitem_valid(1) [of s1 p d n] ok cv1 p s1 obtain r s' where
      "getitem d s1 p n = Inr (r, s')" "heap s' = heap s" "warnings s' = warnings s"
      "cache_valid s'" "\<forall>c. r = Some c \<longrightarrow> c < length (heap s) \<and> bag_name (heap s ! c) = n"
      by (metis (no_types, lifting))
    with c True show ?thesis by simp
  next
    case False
    from Cons.IH [of s1] ok cv1 ps s1 obtain r s' where
      "find_base d s1 ps n = Inr (r, s')" "heap s' = heap s" "warnings s' = warnings s"
      "cache_valid s'" "\<forall>c. r = Some c \<longrightarrow> c < length (heap s) \<and> bag_name (heap s ! c) = n"
      by (metis (no_types, lifting))
    with c False show ?thesis by simp
  qed
qed

lemma resolve_base_valid:
  assumes ok: "heap_ok (heap s)" and cv: "cache_valid s"
    and ps: "\<forall>p\<in>set parents. p < length (heap s) \<and> p < d"
    and as: "\<forall>p\<in>set abstract_props. p < length (heap s) \<and> p < d"
  shows "\<exists>r s'. resolve_base d s parents abstract_props n = Inr (r, s') \<and>
           heap s' = heap s \<and> warnings s' = warnings s \<and> cache_valid s' \<and>
           (\<forall>c. r = Some c \<longrightarrow> c < length (heap s) \<and> bag_name (heap s ! c) = n)"
proof -
  from find_base_valid [OF ok cv ps, of n] obtain r s1 where
    f: "find_base d s parents n = Inr (r, s1)"
    and s1: "heap s1 = heap s" "warnings s1 = warnings s" "cache_valid s1"
    and v: "\<forall>c. r = Some c \<longrightarrow> c < length (heap s) \<and> bag_name (heap s ! c) = n"
    by blast
  show ?thesis
  proof (cases r)
    case (Some b)
    with f s1 v show ?thesis by (simp add: resolve_base_def)
  next
    case None
    from find_base_valid [of s1 abstract_props d n] ok s1 as obtain r' s' where
      "find_base d s1 abstract_props n = Inr (r', s')" "heap s' = heap s"
      "warnings s' = warnings s" "cache_valid s'"
      "\<forall>c. r' = Some c \<longrightarrow> c < length (heap s) \<and> bag_name (heap s ! c) = n"
      by (metis (no_types, lifting))
    with f None show ?thesis by (simp add: resolve_base_def)
  qed
qed


lemma log_warning_frame:
  "heap (log_warning b nm s) = heap s" "getitem_cache (log_warning b nm s) = getitem_cache s"
  "contains_cache (log_warning b nm s) = contains_cache s"
  "warnings (log_warning b nm s) = warnings s @ [(b, nm)]"
  by (simp_all add: log_warning_def)

lemma cache_ok_frame:
  "heap s' = heap s \<Longrightarrow> getitem_cache s' = getitem_cache s \<Longrightarrow>
     contains_cache s' = contains_cache s \<Longrightarrow> cache_ok s' = cache_ok s"
  by (simp add: cache_ok_def)

text \<open>
  The loop over the inheritance clauses returns when the depth suffices, whatever the
  caches hold: every clause gives either a base, a bag that is in the heap already and
  bears the name of the clause, or a warning.
\<close>

lemma resolve_bases_valid:
  "heap_ok (heap s) \<Longrightarrow> cache_valid s \<Longrightarrow>
   \<forall>p\<in>set parents. p < length (heap s) \<and> p < d \<Longrightarrow>
   \<forall>p\<in>set abstract_props. p < length (heap s) \<and> p < d \<Longrightarrow>
     \<exists>bs missing s'.
       resolve_bases d s parents abstract_props nm names bs0 = Inr (bs0 @ bs, s') \<and>
       heap s' = heap s \<and> cache_valid s' \<and>
       (\<forall>b\<in>set bs. b < length (heap s) \<and> bag_name (heap s ! b) \<in> set names) \<and>
       warnings s' = warnings s @ map (\<lambda>n. (n, nm)) missing \<and>
       set missing \<subseteq> set names \<and> length bs + length missing = length names"
proof (induction names arbitrary: s bs0)
  case Nil
  have "resolve_bases d s parents abstract_props nm [] bs0 = Inr (bs0 @ [], s) \<and>
       heap s = heap s \<and> cache_valid s \<and>
       (\<forall>b\<in>set []. b < length (heap s) \<and> bag_name (heap s ! b) \<in> set []) \<and>
       warnings s = warnings s @ map (\<lambda>n. (n, nm)) [] \<and>
       set [] \<subseteq> set ([] :: string list) \<and> length ([] :: nat list) + length ([] :: string list) = length ([] :: string list)"
    using Nil by simp
  then show ?case by blast
next
  case (Cons n names)
  from resolve_base_valid [OF Cons.prems, of n] obtain r s1 where
    rb: "resolve_base d s parents abstract_props n = Inr (r, s1)"
    and s1: "heap s1 = heap s" "warnings s1 = warnings s" "cache_valid s1"
    and v: "\<forall>c. r = Some c \<longrightarrow> c < length (heap s) \<and> bag_name (heap s ! c) = n"
    by blast
  show ?case
  proof (cases r)
    case None
    define s2 where "s2 = log_warning n nm s1"
    have s2: "heap s2 = heap s" "warnings s2 = warnings s @ [(n, nm)]" "cache_valid s2"
      using s1 cache_valid_frame [of s2 s1] by (simp_all add: s2_def log_warning_frame)
    from Cons.IH [of s2 bs0] Cons.prems s2 obtain bs missing s' where
      run: "resolve_bases d s2 parents abstract_props nm names bs0 = Inr (bs0 @ bs, s')"
      and s': "heap s' = heap s" "cache_valid s'"
      and bs: "\<forall>b\<in>set bs. b < length (heap s) \<and> bag_name (heap s ! b) \<in> set names"
      and w: "warnings s' = warnings s2 @ map (\<lambda>n. (n, nm)) missing"
      and m: "set missing \<subseteq> set names" "length bs + length missing = length names"
      by (metis (no_types, lifting))
    have "resolve_bases d s parents abstract_props nm (n # names) bs0 = Inr (bs0 @ bs, s') \<and>
       heap s' = heap s \<and> cache_valid s' \<and>
       (\<forall>b\<in>set bs. b < length (heap s) \<and> bag_name (heap s ! b) \<in> set (n # names)) \<and>
       warnings s' = warnings s @ map (\<lambda>n. (n, nm)) (n # missing) \<and>
       set (n # missing) \<subseteq> set (n # names) \<and>
       length bs + length (n # missing) = length (n # names)"
      using rb None run s' bs w m s2 by (auto simp: s2_def)
    then show ?thesis by blast
  next
    case (Some b)
    with v have b: "b < length (heap s)" "bag_name (heap s ! b) = n" by auto
    from Cons.IH [of s1 "bs0 @ [b]"] Cons.prems s1 obtain bs missing s' where
      run: "resolve_bases d s1 parents abstract_props nm names (bs0 @ [b]) = Inr ((bs0 @ [b]) @ bs, s')"
      and s': "heap s' = heap s" "cache_valid s'"
      and bs: "\<forall>b\<in>set bs. b < length (heap s) \<and> bag_name (heap s ! b) \<in> set names"
      and w: "warnings s' = warnings s1 @ map (\<lambda>n. (n, nm)) missing"
      and m: "set missing \<subseteq> set names" "length bs + length missing = length names"
      by (metis (no_types, lifting))
    have "resolve_bases d s parents abstract_props nm (n # names) bs0 = Inr (bs0 @ (b # bs), s') \<and>
       heap s' = heap s \<and> cache_valid s' \<and>
       (\<forall>b\<in>set (b # bs). b < length (heap s) \<and> bag_name (heap s ! b) \<in> set (n # names)) \<and>
       warnings s' = warnings s @ map (\<lambda>n. (n, nm)) missing \<and>
       set missing \<subseteq> set (n # names) \<and>
       length (b # bs) + length missing = length (n # names)"
      using rb Some run s' bs w m s1 b by auto
    then show ?thesis by blast
  qed
qed

text \<open>With no stale entry in the caches the loop resolves every clause to what the stacks
  show, and logs a warning for each name they do not show.\<close>

lemma resolve_bases_ok:
  "heap_ok (heap s) \<Longrightarrow> cache_ok s \<Longrightarrow>
   \<forall>p\<in>set parents. p < length (heap s) \<and> p < d \<Longrightarrow>
   \<forall>p\<in>set abstract_props. p < length (heap s) \<and> p < d \<Longrightarrow>
     \<exists>s'. resolve_bases d s parents abstract_props nm names bs0 =
            Inr (bs0 @ List.map_filter (resolve_visible (heap s) parents abstract_props) names, s') \<and>
       heap s' = heap s \<and> cache_ok s' \<and>
       warnings s' = warnings s @
         map (\<lambda>n. (n, nm))
           (filter (\<lambda>n. resolve_visible (heap s) parents abstract_props n = None) names)"
proof (induction names arbitrary: s bs0)
  case Nil
  then show ?case by (simp add: List.map_filter_simps)
next
  case (Cons n names)
  from resolve_base_ok [OF Cons.prems, of n] obtain s1 where
    rb: "resolve_base d s parents abstract_props n =
           Inr (resolve_visible (heap s) parents abstract_props n, s1)"
    and s1: "heap s1 = heap s" "cache_ok s1" "warnings s1 = warnings s"
    by blast
  show ?case
  proof (cases "resolve_visible (heap s) parents abstract_props n")
    case None
    define s2 where "s2 = log_warning n nm s1"
    have s2: "heap s2 = heap s" "warnings s2 = warnings s @ [(n, nm)]" "cache_ok s2"
      using s1 cache_ok_frame [of s2 s1] by (simp_all add: s2_def log_warning_frame)
    from Cons.prems s2 have p2: "heap_ok (heap s2)"
      "\<forall>p\<in>set parents. p < length (heap s2) \<and> p < d"
      "\<forall>p\<in>set abstract_props. p < length (heap s2) \<and> p < d" by simp_all
    from Cons.IH [OF p2(1) s2(3) p2(2,3), of bs0, unfolded s2(1)] obtain s' where
      "resolve_bases d s2 parents abstract_props nm names bs0 =
         Inr (bs0 @ List.map_filter (resolve_visible (heap s) parents abstract_props) names, s')"
      "heap s' = heap s" "cache_ok s'"
      "warnings s' = warnings s2 @
         map (\<lambda>n. (n, nm))
           (filter (\<lambda>n. resolve_visible (heap s) parents abstract_props n = None) names)"
      by blast
    with rb None s2 show ?thesis by (simp add: List.map_filter_simps s2_def)
  next
    case (Some b)
    from Cons.prems s1 have p1: "heap_ok (heap s1)"
      "\<forall>p\<in>set parents. p < length (heap s1) \<and> p < d"
      "\<forall>p\<in>set abstract_props. p < length (heap s1) \<and> p < d" by simp_all
    from Cons.IH [OF p1(1) s1(2) p1(2,3), of "bs0 @ [b]", unfolded s1(1)] obtain s' where
      "resolve_bases d s1 parents abstract_props nm names (bs0 @ [b]) =
         Inr ((bs0 @ [b]) @ List.map_filter (resolve_visible (heap s) parents abstract_props) names, s')"
      "heap s' = heap s" "cache_ok s'"
      "warnings s' = warnings s1 @
         map (\<lambda>n. (n, nm))
           (filter (\<lambda>n. resolve_visible (heap s) parents abstract_props n = None) names)"
      by blast
    with rb Some s1 show ?thesis by (simp add: List.map_filter_simps)
  qed
qed

subsection \<open>A new bag added to a bag\<close>


lemma alloc_add:
  assumes "target < length (heap s)"
  shows "heap (add target (length (heap s)) (snd (PropertyBag nm v bs s))) =
           (heap s @ [\<lparr>bag_name = nm, bag_value = v, bases = bs, children = []\<rparr>])
             [target := (heap s ! target)
                \<lparr>children := dict_set nm (length (heap s)) (children (heap s ! target))\<rparr>]"
    and "contains_cache (add target (length (heap s)) (snd (PropertyBag nm v bs s))) = contains_cache s"
    and "getitem_cache (add target (length (heap s)) (snd (PropertyBag nm v bs s))) = getitem_cache s"
    and "warnings (add target (length (heap s)) (snd (PropertyBag nm v bs s))) = warnings s"
  using assms by (simp_all add: add_def PropertyBag_def nth_append)

lemma alloc_add_nth:
  fixes s :: state and target :: nat and nm v :: string and bs :: "nat list"
  assumes t: "target < length (heap s)"
  defines "s' \<equiv> add target (length (heap s)) (snd (PropertyBag nm v bs s))"
  shows "length (heap s') = Suc (length (heap s))"
    and "heap s' ! length (heap s) = \<lparr>bag_name = nm, bag_value = v, bases = bs, children = []\<rparr>"
    and "heap s' ! target = (heap s ! target)
           \<lparr>children := dict_set nm (length (heap s)) (children (heap s ! target))\<rparr>"
    and "\<And>q. q < length (heap s) \<Longrightarrow> q \<noteq> target \<Longrightarrow> heap s' ! q = heap s ! q"
    and "\<And>q. q < length (heap s) \<Longrightarrow> bag_name (heap s' ! q) = bag_name (heap s ! q) \<and>
           bases (heap s' ! q) = bases (heap s ! q) \<and> bag_value (heap s' ! q) = bag_value (heap s ! q)"
proof -
  show "length (heap s') = Suc (length (heap s))"
    unfolding s'_def alloc_add(1) [OF t] by simp
  show "heap s' ! length (heap s) = \<lparr>bag_name = nm, bag_value = v, bases = bs, children = []\<rparr>"
    unfolding s'_def alloc_add(1) [OF t] using t by (simp add: nth_append)
  show "heap s' ! target = (heap s ! target)
           \<lparr>children := dict_set nm (length (heap s)) (children (heap s ! target))\<rparr>"
    unfolding s'_def alloc_add(1) [OF t] using t by simp
  show "heap s' ! q = heap s ! q" if "q < length (heap s)" "q \<noteq> target" for q
    unfolding s'_def alloc_add(1) [OF t] using that by (simp add: nth_append)
  show "bag_name (heap s' ! q) = bag_name (heap s ! q) \<and>
           bases (heap s' ! q) = bases (heap s ! q) \<and> bag_value (heap s' ! q) = bag_value (heap s ! q)"
    if "q < length (heap s)" for q
    unfolding s'_def alloc_add(1) [OF t] using that by (cases "q = target") (simp_all add: nth_append)
qed




subsection \<open>One declaration\<close>

lemma fst_PropertyBag: "fst (PropertyBag n v bs s) = length (heap s)"
  by (simp add: PropertyBag_def)

lemma parse_declaration_value:
  assumes "line_regex_match (node_text (T ! child)) = Some m" and "equals m"
    and "value m = Some v" and "v \<noteq> []" and "declared_name d s parent m = Inr nm"
  shows "parse_declaration d T child (parent # ps) abstract_props s =
           Inr (None, add parent (length (heap s)) (snd (PropertyBag nm (strip v) [] s)))"
  using assms by (simp add: parse_declaration_def Let_def case_prod_unfold fst_PropertyBag)

lemma parse_declaration_multiline:
  assumes "line_regex_match (node_text (T ! child)) = Some m" and "equals m"
    and "value m = None" and "declared_name d s parent m = Inr nm"
  shows "parse_declaration d T child (parent # ps) abstract_props s =
           Inr (None, add parent (length (heap s))
             (snd (PropertyBag nm
                (join_text [] (map (\<lambda>c. node_text (T ! c)) (node_children (T ! child)))) [] s)))"
  using assms by (simp add: parse_declaration_def Let_def case_prod_unfold fst_PropertyBag)

lemma parse_declaration_collection:
  assumes "line_regex_match (node_text (T ! child)) = Some m" and "\<not> equals m"
    and "declared_name d s parent m = Inr nm"
    and "resolve_bases d s (parent # ps) (holder # as) nm (inherit_names nm (inherits m)) [] =
           Inr (bs, s1)"
  shows "parse_declaration d T child (parent # ps) (holder # as) s =
           Inr (Some (length (heap s1)),
                add (if abstract m then holder else parent) (length (heap s1))
                  (snd (PropertyBag nm [] bs s1)))"
  using assms by (simp add: parse_declaration_def Let_def case_prod_unfold fst_PropertyBag)

lemma flatten_error:
  "flatten_properties d h a = Inl e \<Longrightarrow> e = RecursionError"
  "flatten_bases d h bs props = Inl e \<Longrightarrow> e = RecursionError"
  by (induction d h a and d h bs props rule: flatten_properties_flatten_bases.induct)
     (auto split: sum.splits)


subsection \<open>Joining the fragments\<close>

lemma join_text_nonempty:
  "v \<noteq> [] \<Longrightarrow> join_text v ts = v @ concat (map (\<lambda>t. '' '' @ t) ts)"
  by (induction ts arbitrary: v) simp_all

lemma join_space_Cons: "join_space (t # ts) = t @ concat (map (\<lambda>t. '' '' @ t) ts)"
  by (induction ts arbitrary: t) simp_all

lemma join_text_join_space: "join_text [] ts = join_space (dropWhile (\<lambda>t. t = []) ts)"
proof (induction ts)
  case Nil
  then show ?case by simp
next
  case (Cons t ts)
  show ?case
  proof (cases "t = []")
    case True
    with Cons show ?thesis by simp
  next
    case False
    then show ?thesis by (simp add: join_text_nonempty join_space_Cons)
  qed
qed

subsection \<open>The view of a bag that is left alone\<close>




subsection \<open>The line pattern on an abstract declaration\<close>

lemma match_tail_Nil: "match_tail [] = Some (False, None, [])"
  by (simp add: match_tail_def at_end_def)

lemma name_lazy_total: "newline \<notin> set s \<Longrightarrow> name_lazy acc s \<noteq> None"
proof (induction s arbitrary: acc)
  case Nil
  then show ?case by (simp add: match_tail_Nil)
next
  case (Cons c cs)
  then show ?case by (auto simp: dot_def split: option.splits)
qed

lemma match_name_total: "s \<noteq> [] \<Longrightarrow> newline \<notin> set s \<Longrightarrow> match_name s \<noteq> None"
  using name_lazy_total [of "tl s" "[hd s]"] by (cases s) (auto simp: match_name_def dot_def)


lemma line_regex_match_total:
  assumes "t \<noteq> []" "newline \<notin> set t"
  shows "line_regex_match t \<noteq> None"
proof -
  from match_name_total [OF assms] obtain x where "match_name t = Some x" by auto
  then show ?thesis
    by (simp add: line_regex_match_def split: option.split)
qed


subsection \<open>A line that ends with the equals sign\<close>

lemma match_tail_equals: "match_tail ''='' = Some (True, None, [])"
  by (simp add: match_tail_def match_value_def at_end_def)

lemma match_tail_plain:
  assumes "c \<noteq> CHR ''=''" "c \<noteq> CHR '':''" "c \<noteq> newline"
  shows "match_tail (c # cs) = None"
proof -
  have e: "\<not> at_end (c # cs)" using assms(3) by (simp add: at_end_def)
  have "match_inherits (c # cs) = None"
    using assms(2) e by (simp split: list.splits)
  with e assms(1) show ?thesis by (simp add: match_tail_def)
qed

lemma name_lazy_equals:
  "\<forall>c\<in>set n. c \<noteq> CHR ''='' \<and> c \<noteq> CHR '':'' \<and> c \<noteq> newline \<Longrightarrow>
     name_lazy acc (n @ ''='') = Some (acc @ n, True, None, [])"
proof (induction n arbitrary: acc)
  case Nil
  then show ?case using match_tail_equals by simp
next
  case (Cons c n)
  from Cons.prems have c: "c \<noteq> CHR ''=''" "c \<noteq> CHR '':''" "c \<noteq> newline" by simp_all
  from Cons.prems have "\<forall>c\<in>set n. c \<noteq> CHR ''='' \<and> c \<noteq> CHR '':'' \<and> c \<noteq> newline" by simp
  from Cons.IH [OF this, of "acc @ [c]"] match_tail_plain [OF c, of "n @ ''=''"] c(3)
  show ?case by (simp add: dot_def)
qed

lemma line_regex_match_equals:
  assumes "n \<noteq> []" "\<forall>c\<in>set n. c \<noteq> CHR ''='' \<and> c \<noteq> CHR '':'' \<and> c \<noteq> newline"
  shows "line_regex_match (n @ ''='') =
           Some \<lparr>abstract = False, name = n, equals = True, value = None, inherits = []\<rparr>"
proof -
  from assms(1) obtain c n' where n: "n = c # n'" by (cases n) auto
  with assms(2) have c: "c \<noteq> CHR '':''" "c \<noteq> newline"
    and n': "\<forall>c\<in>set n'. c \<noteq> CHR ''='' \<and> c \<noteq> CHR '':'' \<and> c \<noteq> newline" by simp_all
  from name_lazy_equals [OF n', of "[c]"] c(2)
  have m: "match_name (n @ ''='') = Some (n, True, None, [])"
    by (simp add: n match_name_def dot_def)
  have "(case n @ ''='' of
           c1 # c2 # r \<Rightarrow>
             if c1 = CHR '':'' \<and> c2 = CHR '':''
             then map_option (mk_match True) (match_name r) else None
         | _ \<Rightarrow> None) = None"
    using c(1) by (simp add: n split: list.splits)
  then show ?thesis
    unfolding line_regex_match_def by (simp add: m mk_match_def)
qed

lemma multi_line_example:
  "from_lines 50 [''m ='', ''  x'', ''  y''] =
     Inr (0, \<lparr>heap =
        [\<lparr>bag_name = ''root'', bag_value = [], bases = [], children = [(''m'', 2)]\<rparr>,
         \<lparr>bag_name = ''abstract'', bag_value = [], bases = [], children = []\<rparr>,
         \<lparr>bag_name = ''m'', bag_value = ''x y'', bases = [], children = []\<rparr>],
        contains_cache = [], getitem_cache = [], warnings = []\<rparr>)"
  by code_simp

text \<open>
  Claim C6, as the code has it. A declaration whose match has the equals sign and no value
  makes one bag, named by the declaration, without bases and without children, and adds it
  to the innermost parent; \<open>_parse_tree\<close> does not descend into the line, so the lines under
  it give no bags. The value is made of the texts of the direct children of the line only,
  in their order: the empty texts at the front are passed over, the others are joined with
  one space between two of them. A text that has no equals sign, colon or line break,
  followed by the equals sign, is such a declaration. The lines \<open>m =\<close>, \<open>x\<close>, \<open>y\<close> of the
  example give a root with the one child \<open>m\<close> whose value is \<open>x y\<close>.
\<close>

theorem multi_line_value:
  assumes "line_regex_match (node_text (T ! child)) = Some m"
    and "equals m" and "value m = None"
    and "declared_name d s parent m = Inr nm"
  shows "parse_declaration d T child (parent # ps) abstract_props s =
           Inr (None, add parent (length (heap s))
             (snd (PropertyBag nm
                (join_space (dropWhile (\<lambda>t. t = [])
                   (map (\<lambda>c. node_text (T ! c)) (node_children (T ! child))))) [] s))) \<and>
         parse_children d T (child # rest) (parent # ps) abstract_props s =
           parse_children d T rest (parent # ps) abstract_props
             (add parent (length (heap s))
               (snd (PropertyBag nm
                  (join_space (dropWhile (\<lambda>t. t = [])
                     (map (\<lambda>c. node_text (T ! c)) (node_children (T ! child))))) [] s))) \<and>
         (\<forall>n. n \<noteq> [] \<and> (\<forall>c\<in>set n. c \<noteq> CHR ''='' \<and> c \<noteq> CHR '':'' \<and> c \<noteq> newline) \<longrightarrow>
            line_regex_match (n @ ''='') =
              Some \<lparr>abstract = False, name = n, equals = True, value = None, inherits = []\<rparr>) \<and>
         (\<exists>s'. from_lines 50 [''m ='', ''  x'', ''  y''] = Inr (0, s') \<and>
            children (heap s' ! 0) = [(''m'', 2)] \<and>
            heap s' ! 2 = \<lparr>bag_name = ''m'', bag_value = ''x y'', bases = [], children = []\<rparr>)"
proof -
  note step = parse_declaration_multiline [OF assms, of ps abstract_props,
      unfolded join_text_join_space]
  have "parse_children d T (child # rest) (parent # ps) abstract_props s =
          parse_children d T rest (parent # ps) abstract_props
            (add parent (length (heap s))
              (snd (PropertyBag nm
                 (join_space (dropWhile (\<lambda>t. t = [])
                    (map (\<lambda>c. node_text (T ! c)) (node_children (T ! child))))) [] s)))"
    by (simp add: step)
  moreover have "\<exists>s'. from_lines 50 [''m ='', ''  x'', ''  y''] = Inr (0, s') \<and>
            children (heap s' ! 0) = [(''m'', 2)] \<and>
            heap s' ! 2 = \<lparr>bag_name = ''m'', bag_value = ''x y'', bases = [], children = []\<rparr>"
    unfolding multi_line_example by simp
  ultimately show ?thesis using step line_regex_match_equals by blast
qed

theorem multi_line_value_witness:
  "line_regex_match
     (node_text ([\<lparr>indent = - 1, node_text = [], node_children = [1]\<rparr>,
                  \<lparr>indent = 0, node_text = ''m ='', node_children = [2, 3]\<rparr>,
                  \<lparr>indent = 1, node_text = ''x'', node_children = []\<rparr>,
                  \<lparr>indent = 1, node_text = ''y'', node_children = []\<rparr>] ! 1)) =
     Some \<lparr>abstract = False, name = ''m '', equals = True, value = None, inherits = []\<rparr> \<and>
   declared_name 49
     (snd (PropertyBag ''abstract'' [] [] (snd (PropertyBag ''root'' [] [] initial_state)))) 0
     \<lparr>abstract = False, name = ''m '', equals = True, value = None, inherits = []\<rparr> = Inr ''m'' \<and>
   parse_declaration 49
     [\<lparr>indent = - 1, node_text = [], node_children = [1]\<rparr>,
      \<lparr>indent = 0, node_text = ''m ='', node_children = [2, 3]\<rparr>,
      \<lparr>indent = 1, node_text = ''x'', node_children = []\<rparr>,
      \<lparr>indent = 1, node_text = ''y'', node_children = []\<rparr>] 1 [0] [1]
     (snd (PropertyBag ''abstract'' [] [] (snd (PropertyBag ''root'' [] [] initial_state)))) =
   Inr (None, \<lparr>heap =
        [\<lparr>bag_name = ''root'', bag_value = [], bases = [], children = [(''m'', 2)]\<rparr>,
         \<lparr>bag_name = ''abstract'', bag_value = [], bases = [], children = []\<rparr>,
         \<lparr>bag_name = ''m'', bag_value = ''x y'', bases = [], children = []\<rparr>],
        contains_cache = [], getitem_cache = [], warnings = []\<rparr>) \<and>
   line_regex_match (''m '' @ ''='') =
     Some \<lparr>abstract = False, name = ''m '', equals = True, value = None, inherits = []\<rparr>"
proof -
  let ?T = "[\<lparr>indent = - 1, node_text = [], node_children = [1]\<rparr>,
             \<lparr>indent = 0, node_text = ''m ='', node_children = [2, 3]\<rparr>,
             \<lparr>indent = 1, node_text = ''x'', node_children = []\<rparr>,
             \<lparr>indent = 1, node_text = ''y'', node_children = []\<rparr>]"
  let ?m = "\<lparr>abstract = False, name = ''m '', equals = True, value = None, inherits = []\<rparr>"
  let ?s = "snd (PropertyBag ''abstract'' [] [] (snd (PropertyBag ''root'' [] [] initial_state)))"
  have h1: "line_regex_match (node_text (?T ! 1)) = Some ?m" by code_simp
  have h2: "equals ?m" by simp
  have h3: "value ?m = None" by simp
  have h4: "declared_name 49 ?s 0 ?m = Inr ''m''" by code_simp
  have v: "add 0 (length (heap ?s))
             (snd (PropertyBag ''m''
                (join_space (dropWhile (\<lambda>t. t = [])
                   (map (\<lambda>c. node_text (?T ! c)) (node_children (?T ! 1))))) [] ?s)) =
           \<lparr>heap =
        [\<lparr>bag_name = ''root'', bag_value = [], bases = [], children = [(''m'', 2)]\<rparr>,
         \<lparr>bag_name = ''abstract'', bag_value = [], bases = [], children = []\<rparr>,
         \<lparr>bag_name = ''m'', bag_value = ''x y'', bases = [], children = []\<rparr>],
        contains_cache = [], getitem_cache = [], warnings = []\<rparr>"
    by code_simp
  have n: "''m '' \<noteq> [] \<and> (\<forall>c\<in>set ''m ''. c \<noteq> CHR ''='' \<and> c \<noteq> CHR '':'' \<and> c \<noteq> newline)"
    by (simp add: newline_def)
  note t = multi_line_value [OF h1 h2 h3 h4, of "[]" "[1]" "[]", unfolded v]
  from t have "parse_declaration 49 ?T 1 [0] [1] ?s = Inr (None, \<lparr>heap =
        [\<lparr>bag_name = ''root'', bag_value = [], bases = [], children = [(''m'', 2)]\<rparr>,
         \<lparr>bag_name = ''abstract'', bag_value = [], bases = [], children = []\<rparr>,
         \<lparr>bag_name = ''m'', bag_value = ''x y'', bases = [], children = []\<rparr>],
        contains_cache = [], getitem_cache = [], warnings = []\<rparr>)" by (rule conjunct1)
  moreover from t n have "line_regex_match (''m '' @ ''='') = Some ?m" by blast
  ultimately show ?thesis using h1 h4 by (intro conjI)
qed

theorem nested_fragment_counterexample:
  "IndentationTree_parse 50 [''m ='', ''  x'', ''    y''] =
     Inr [\<lparr>indent = - 1, node_text = [], node_children = [1]\<rparr>,
          \<lparr>indent = 0, node_text = ''m ='', node_children = [2]\<rparr>,
          \<lparr>indent = 1, node_text = ''x'', node_children = [3]\<rparr>,
          \<lparr>indent = 2, node_text = ''y'', node_children = []\<rparr>] \<and>
   from_lines 50 [''m ='', ''  x'', ''    y''] =
     Inr (0, \<lparr>heap =
        [\<lparr>bag_name = ''root'', bag_value = [], bases = [], children = [(''m'', 2)]\<rparr>,
         \<lparr>bag_name = ''abstract'', bag_value = [], bases = [], children = []\<rparr>,
         \<lparr>bag_name = ''m'', bag_value = ''x'', bases = [], children = []\<rparr>],
        contains_cache = [], getitem_cache = [], warnings = []\<rparr>) \<and>
   join_space [''x'', ''y''] = ''x y'' \<and>
   from_lines 50 [''m ='', ''  '', ''  x''] =
     Inr (0, \<lparr>heap =
        [\<lparr>bag_name = ''root'', bag_value = [], bases = [], children = [(''m'', 2)]\<rparr>,
         \<lparr>bag_name = ''abstract'', bag_value = [], bases = [], children = []\<rparr>,
         \<lparr>bag_name = ''m'', bag_value = ''x'', bases = [], children = []\<rparr>],
        contains_cache = [], getitem_cache = [], warnings = []\<rparr>) \<and>
   join_space [[], ''x''] = '' x''"
  by code_simp

subsection \<open>A collection and its bases\<close>

lemma stack_bounds:
  fixes n d :: nat
  shows "\<forall>p\<in>set xs. p < n \<Longrightarrow> n \<le> d \<Longrightarrow> set ys \<subseteq> set xs \<Longrightarrow> \<forall>p\<in>set ys. p < n \<and> p < d"
  by (meson less_le_trans subsetD)

lemma parse_declaration_bases:
  assumes m: "line_regex_match (node_text (T ! child)) = Some m" "\<not> equals m"
    and ok: "heap_ok (heap s)" and cv: "cache_valid s"
    and st: "\<forall>p\<in>set (parent # ps @ holder # as). p < length (heap s)"
    and d: "length (heap s) \<le> d"
    and nm: "declared_name d s parent m = Inr nm"
    and rb: "resolve_bases d s (parent # ps) (holder # as) nm (inherit_names nm (inherits m)) [] =
               Inr (bs, s1)"
  defines "new \<equiv> length (heap s)"
  defines "s' \<equiv> add (if abstract m then holder else parent) new (snd (PropertyBag nm [] bs s1))"
  shows "parse_declaration d T child (parent # ps) (holder # as) s = Inr (Some new, s')"
    and "heap s' ! new = \<lparr>bag_name = nm, bag_value = [], bases = bs, children = []\<rparr>"
    and "length (heap s') = Suc new"
    and "\<forall>b\<in>set bs. b < new \<and> bag_name (heap s' ! b) \<in> set (inherit_names nm (inherits m))"
    and "heap s1 = heap s" and "cache_valid s1"
    and "cache_ok s \<Longrightarrow>
           bs = List.map_filter (resolve_visible (heap s) (parent # ps) (holder # as))
                  (inherit_names nm (inherits m))"
proof -
  have ps: "\<forall>p\<in>set (parent # ps). p < length (heap s) \<and> p < d"
    and as: "\<forall>p\<in>set (holder # as). p < length (heap s) \<and> p < d"
    using stack_bounds [OF st d, of "parent # ps"] stack_bounds [OF st d, of "holder # as"]
    by auto
  from resolve_bases_valid [OF ok cv ps as, of nm "inherit_names nm (inherits m)" "[]"] rb
  have h: "heap s1 = heap s" and cv1: "cache_valid s1"
    and bs: "\<forall>b\<in>set bs. b < length (heap s) \<and>
               bag_name (heap s ! b) \<in> set (inherit_names nm (inherits m))"
    by auto
  show "heap s1 = heap s" by (rule h)
  show "cache_valid s1" by (rule cv1)
  have t: "(if abstract m then holder else parent) < length (heap s1)"
    using st h by simp
  from parse_declaration_collection [OF m nm rb]
  show "parse_declaration d T child (parent # ps) (holder # as) s = Inr (Some new, s')"
    by (simp add: s'_def new_def h)
  from alloc_add_nth(1,2) [OF t, of nm "[]" bs]
  show "heap s' ! new = \<lparr>bag_name = nm, bag_value = [], bases = bs, children = []\<rparr>"
    and "length (heap s') = Suc new"
    by (simp_all add: s'_def new_def h)
  show "\<forall>b\<in>set bs. b < new \<and> bag_name (heap s' ! b) \<in> set (inherit_names nm (inherits m))"
  proof
    fix b assume b: "b \<in> set bs"
    with bs have lt: "b < length (heap s1)"
      and n: "bag_name (heap s ! b) \<in> set (inherit_names nm (inherits m))"
      by (simp_all add: h)
    from alloc_add_nth(5) [OF t lt, of nm "[]" bs] n lt
    show "b < new \<and> bag_name (heap s' ! b) \<in> set (inherit_names nm (inherits m))"
      by (simp add: s'_def new_def h)
  qed
  show "bs = List.map_filter (resolve_visible (heap s) (parent # ps) (holder # as))
                  (inherit_names nm (inherits m))" if "cache_ok s"
    using resolve_bases_ok [OF ok that ps as, of nm "inherit_names nm (inherits m)" "[]"] rb
    by auto
qed

lemma before_self_named_eval:
  "before_self_named =
     \<lparr>heap =
        [\<lparr>bag_name = ''root'', bag_value = [], bases = [], children = [(''foo'', 2), (''a'', 5)]\<rparr>,
         \<lparr>bag_name = ''abstract'', bag_value = [], bases = [], children = []\<rparr>,
         \<lparr>bag_name = ''foo'', bag_value = [], bases = [], children = [(''bar'', 4)]\<rparr>,
         \<lparr>bag_name = ''abstract'', bag_value = [], bases = [], children = []\<rparr>,
         \<lparr>bag_name = ''bar'', bag_value = ''in base'', bases = [], children = []\<rparr>,
         \<lparr>bag_name = ''a'', bag_value = [], bases = [], children = []\<rparr>,
         \<lparr>bag_name = ''abstract'', bag_value = [], bases = [], children = []\<rparr>],
      contains_cache = [], getitem_cache = [], warnings = []\<rparr>"
  by code_simp

lemma self_named_tree_eval:
  "self_named_tree =
     [\<lparr>indent = - 1, node_text = [], node_children = [1, 3]\<rparr>,
      \<lparr>indent = 0, node_text = ''foo'', node_children = [2]\<rparr>,
      \<lparr>indent = 1, node_text = ''bar = in base'', node_children = []\<rparr>,
      \<lparr>indent = 0, node_text = ''a'', node_children = [4]\<rparr>,
      \<lparr>indent = 1, node_text = ''foo ::'', node_children = []\<rparr>]"
  by code_simp

text \<open>
  A collection declaration is read in a state whose heap and lookup cache are well formed,
  below the depth limit, with the stacks of parents and of abstract holders in the heap;
  \<open>nm\<close> is its name and \<open>bs\<close> what the resolution of its clauses returns. An empty clause
  stands for the name of the declaration itself. The declaration makes the bag at the
  first free address, with the bases \<open>bs\<close>. Every base is a bag that was in the heap
  before, so none is the bag being defined, and it bears the name of one of the clauses.
  When the caches agree with the heap, the bases are what the stacks show for the names:
  for each name the first bag shown by a parent, from the innermost one out, or else by an
  abstract holder.
\<close>

lemma self_named_inheritance:
  assumes "line_regex_match (node_text (T ! child)) = Some m" and "\<not> equals m"
    and "heap_ok (heap s)" and "cache_valid s"
    and "\<forall>p\<in>set (parent # ps @ holder # as). p < length (heap s)"
    and "length (heap s) \<le> d"
    and "declared_name d s parent m = Inr nm"
    and "resolve_bases d s (parent # ps) (holder # as) nm (inherit_names nm (inherits m)) [] =
           Inr (bs, s1)"
  shows "inherit_names nm (inherits m) =
           map (\<lambda>i. if strip i = [] then nm else strip i) (inherits m) \<and>
         parse_declaration d T child (parent # ps) (holder # as) s =
           Inr (Some (length (heap s)),
                add (if abstract m then holder else parent) (length (heap s))
                  (snd (PropertyBag nm [] bs s1))) \<and>
         heap (add (if abstract m then holder else parent) (length (heap s))
                 (snd (PropertyBag nm [] bs s1))) ! length (heap s) =
           \<lparr>bag_name = nm, bag_value = [], bases = bs, children = []\<rparr> \<and>
         (\<forall>b\<in>set bs. b < length (heap s) \<and> b \<noteq> length (heap s) \<and>
            bag_name (heap s ! b) \<in> set (inherit_names nm (inherits m))) \<and>
         (list_all (\<lambda>i. strip i = []) (inherits m) \<longrightarrow>
            (\<forall>b\<in>set bs. bag_name (heap s ! b) = nm)) \<and>
         length bs \<le> length (inherits m) \<and>
         (cache_ok s \<longrightarrow>
            bs = List.map_filter (resolve_visible (heap s) (parent # ps) (holder # as))
                   (inherit_names nm (inherits m)))"
proof -
  have ps: "\<forall>p\<in>set (parent # ps). p < length (heap s) \<and> p < d"
    and as: "\<forall>p\<in>set (holder # as). p < length (heap s) \<and> p < d"
    using stack_bounds [OF assms(5,6), of "parent # ps"]
      stack_bounds [OF assms(5,6), of "holder # as"]
    by auto
  from resolve_bases_valid [OF assms(3,4) ps as, of nm "inherit_names nm (inherits m)" "[]"]
  obtain bs' missing s' where all:
    "resolve_bases d s (parent # ps) (holder # as) nm (inherit_names nm (inherits m)) [] =
          Inr ([] @ bs', s') \<and>
     heap s' = heap s \<and> cache_valid s' \<and>
     (\<forall>b\<in>set bs'. b < length (heap s) \<and>
        bag_name (heap s ! b) \<in> set (inherit_names nm (inherits m))) \<and>
     warnings s' = warnings s @ map (\<lambda>n. (n, nm)) missing \<and>
     set missing \<subseteq> set (inherit_names nm (inherits m)) \<and>
     length bs' + length missing = length (inherit_names nm (inherits m))"
    by (elim exE) (erule that)
  from all have
    r: "resolve_bases d s (parent # ps) (holder # as) nm (inherit_names nm (inherits m)) [] =
          Inr ([] @ bs', s')"
    and b': "\<forall>b\<in>set bs'. b < length (heap s) \<and>
        bag_name (heap s ! b) \<in> set (inherit_names nm (inherits m))"
    and l': "length bs' + length missing = length (inherit_names nm (inherits m))"
    by simp_all
  from r assms(8) have e: "bs' = bs" by simp
  from b' e have bs: "\<forall>b\<in>set bs. b < length (heap s) \<and>
        bag_name (heap s ! b) \<in> set (inherit_names nm (inherits m))"
    by simp
  from l' e have len: "length bs \<le> length (inherit_names nm (inherits m))"
    by simp
  have names: "inherit_names nm (inherits m) =
                 map (\<lambda>i. if strip i = [] then nm else strip i) (inherits m)"
    by (simp add: inherit_names_def Let_def)
  have own: "\<forall>b\<in>set bs. bag_name (heap s ! b) = nm"
    if "list_all (\<lambda>i. strip i = []) (inherits m)"
  proof -
    from that have "set (inherit_names nm (inherits m)) \<subseteq> {nm}"
      by (auto simp: names list_all_iff)
    with bs show ?thesis by blast
  qed
  have older: "\<forall>b\<in>set bs. b < length (heap s) \<and> b \<noteq> length (heap s) \<and>
            bag_name (heap s ! b) \<in> set (inherit_names nm (inherits m))"
    using bs by auto
  have short: "length bs \<le> length (inherits m)"
    using len by (simp add: inherit_names_def)
  note step = parse_declaration_bases [OF assms]
  from names step(1,2) older own short step(7) show ?thesis by (intro conjI impI) 
qed

lemma self_named_inheritance_example:
  "line_regex_match (node_text (self_named_tree ! 4)) =
     Some \<lparr>abstract = False, name = ''foo '', equals = False, value = None, inherits = [[]]\<rparr> \<and>
   heap_ok (heap before_self_named) \<and> cache_valid before_self_named \<and>
   cache_ok before_self_named \<and>
   declared_name 48 before_self_named 5
     \<lparr>abstract = False, name = ''foo '', equals = False, value = None, inherits = [[]]\<rparr> =
     Inr ''foo'' \<and>
   inherit_names ''foo'' [[]] = [''foo''] \<and>
   bag_name (heap before_self_named ! 2) = ''foo'' \<and>
   map_of (children (heap before_self_named ! 0)) ''foo'' = Some 2 \<and>
   parse_declaration 48 self_named_tree 4 [5, 0] [6, 1] before_self_named =
     Inr (Some 7,
      \<lparr>heap =
        [\<lparr>bag_name = ''root'', bag_value = [], bases = [], children = [(''foo'', 2), (''a'', 5)]\<rparr>,
         \<lparr>bag_name = ''abstract'', bag_value = [], bases = [], children = []\<rparr>,
         \<lparr>bag_name = ''foo'', bag_value = [], bases = [], children = [(''bar'', 4)]\<rparr>,
         \<lparr>bag_name = ''abstract'', bag_value = [], bases = [], children = []\<rparr>,
         \<lparr>bag_name = ''bar'', bag_value = ''in base'', bases = [], children = []\<rparr>,
         \<lparr>bag_name = ''a'', bag_value = [], bases = [], children = [(''foo'', 7)]\<rparr>,
         \<lparr>bag_name = ''abstract'', bag_value = [], bases = [], children = []\<rparr>,
         \<lparr>bag_name = ''foo'', bag_value = [], bases = [2], children = []\<rparr>],
       contains_cache = [((0, ''foo''), True), ((5, ''foo''), False)],
       getitem_cache = [((0, ''foo''), Some 2)], warnings = []\<rparr>)"
proof -
  let ?m = "\<lparr>abstract = False, name = ''foo '', equals = False, value = None,
              inherits = [[]]\<rparr>"
  let ?s1 = "\<lparr>heap = heap before_self_named,
       contains_cache = [((0, ''foo''), True), ((5, ''foo''), False)],
       getitem_cache = [((0, ''foo''), Some 2)], warnings = []\<rparr>"
  have h1: "line_regex_match (node_text (self_named_tree ! 4)) = Some ?m"
    unfolding self_named_tree_eval by code_simp
  have h2: "\<not> equals ?m" by simp
  have h3: "heap_ok (heap before_self_named)" unfolding before_self_named_eval by code_simp
  have h4: "cache_valid before_self_named" unfolding before_self_named_eval by code_simp
  have h5: "\<forall>p\<in>set (5 # [0] @ 6 # [1]). p < length (heap before_self_named)"
    unfolding before_self_named_eval by simp
  have h6: "length (heap before_self_named) \<le> 48" unfolding before_self_named_eval by simp
  have h7: "declared_name 48 before_self_named 5 ?m = Inr ''foo''"
    unfolding before_self_named_eval by code_simp
  have h8: "resolve_bases 48 before_self_named (5 # [0]) (6 # [1]) ''foo''
              (inherit_names ''foo'' (inherits ?m)) [] = Inr ([2], ?s1)"
    unfolding before_self_named_eval by code_simp
  have c: "cache_ok before_self_named" unfolding before_self_named_eval by code_simp
  have n: "inherit_names ''foo'' [[]] = [''foo'']" by code_simp
  have b: "bag_name (heap before_self_named ! 2) = ''foo''"
    unfolding before_self_named_eval by simp
  have r: "map_of (children (heap before_self_named ! 0)) ''foo'' = Some 2"
    unfolding before_self_named_eval by simp
  have v: "add (if abstract ?m then 6 else 5) 7
             (snd (PropertyBag ''foo'' [] [2] ?s1)) =
      \<lparr>heap =
        [\<lparr>bag_name = ''root'', bag_value = [], bases = [], children = [(''foo'', 2), (''a'', 5)]\<rparr>,
         \<lparr>bag_name = ''abstract'', bag_value = [], bases = [], children = []\<rparr>,
         \<lparr>bag_name = ''foo'', bag_value = [], bases = [], children = [(''bar'', 4)]\<rparr>,
         \<lparr>bag_name = ''abstract'', bag_value = [], bases = [], children = []\<rparr>,
         \<lparr>bag_name = ''bar'', bag_value = ''in base'', bases = [], children = []\<rparr>,
         \<lparr>bag_name = ''a'', bag_value = [], bases = [], children = [(''foo'', 7)]\<rparr>,
         \<lparr>bag_name = ''abstract'', bag_value = [], bases = [], children = []\<rparr>,
         \<lparr>bag_name = ''foo'', bag_value = [], bases = [2], children = []\<rparr>],
       contains_cache = [((0, ''foo''), True), ((5, ''foo''), False)],
       getitem_cache = [((0, ''foo''), Some 2)], warnings = []\<rparr>"
    unfolding before_self_named_eval by code_simp
  have l: "length (heap before_self_named) = 7" unfolding before_self_named_eval by simp
  note t = self_named_inheritance [OF h1 h2 h3 h4 h5 h6 h7 h8]
  from t [THEN conjunct2, THEN conjunct1]
  have "parse_declaration 48 self_named_tree 4 [5, 0] [6, 1] before_self_named =
     Inr (Some 7,
      \<lparr>heap =
        [\<lparr>bag_name = ''root'', bag_value = [], bases = [], children = [(''foo'', 2), (''a'', 5)]\<rparr>,
         \<lparr>bag_name = ''abstract'', bag_value = [], bases = [], children = []\<rparr>,
         \<lparr>bag_name = ''foo'', bag_value = [], bases = [], children = [(''bar'', 4)]\<rparr>,
         \<lparr>bag_name = ''abstract'', bag_value = [], bases = [], children = []\<rparr>,
         \<lparr>bag_name = ''bar'', bag_value = ''in base'', bases = [], children = []\<rparr>,
         \<lparr>bag_name = ''a'', bag_value = [], bases = [], children = [(''foo'', 7)]\<rparr>,
         \<lparr>bag_name = ''abstract'', bag_value = [], bases = [], children = []\<rparr>,
         \<lparr>bag_name = ''foo'', bag_value = [], bases = [2], children = []\<rparr>],
       contains_cache = [((0, ''foo''), True), ((5, ''foo''), False)],
       getitem_cache = [((0, ''foo''), Some 2)], warnings = []\<rparr>)"
    by (simp only: l v)
  with h1 h3 h4 c h7 n b r show ?thesis by (intro conjI)
qed

subsection \<open>A base that appears after it was looked for\<close>

lemma late_base_tree_eval:
  "late_base_tree =
     [\<lparr>indent = - 1, node_text = [], node_children = [1, 3, 5]\<rparr>,
      \<lparr>indent = 0, node_text = ''a'', node_children = [2]\<rparr>,
      \<lparr>indent = 1, node_text = ''foo ::'', node_children = []\<rparr>,
      \<lparr>indent = 0, node_text = ''foo'', node_children = [4]\<rparr>,
      \<lparr>indent = 1, node_text = ''bar = 1'', node_children = []\<rparr>,
      \<lparr>indent = 0, node_text = ''b'', node_children = [6]\<rparr>,
      \<lparr>indent = 1, node_text = ''foo ::'', node_children = []\<rparr>]"
  by code_simp

lemma before_late_base_eval:
  "before_late_base =
     \<lparr>heap =
        [\<lparr>bag_name = ''root'', bag_value = [], bases = [],
            children = [(''a'', 2), (''foo'', 6), (''b'', 9)]\<rparr>,
         \<lparr>bag_name = ''abstract'', bag_value = [], bases = [], children = []\<rparr>,
         \<lparr>bag_name = ''a'', bag_value = [], bases = [], children = [(''foo'', 4)]\<rparr>,
         \<lparr>bag_name = ''abstract'', bag_value = [], bases = [], children = []\<rparr>,
         \<lparr>bag_name = ''foo'', bag_value = [], bases = [], children = []\<rparr>,
         \<lparr>bag_name = ''abstract'', bag_value = [], bases = [], children = []\<rparr>,
         \<lparr>bag_name = ''foo'', bag_value = [], bases = [], children = [(''bar'', 8)]\<rparr>,
         \<lparr>bag_name = ''abstract'', bag_value = [], bases = [], children = []\<rparr>,
         \<lparr>bag_name = ''bar'', bag_value = ''1'', bases = [], children = []\<rparr>,
         \<lparr>bag_name = ''b'', bag_value = [], bases = [], children = []\<rparr>,
         \<lparr>bag_name = ''abstract'', bag_value = [], bases = [], children = []\<rparr>],
      contains_cache =
        [((1, ''foo''), False), ((3, ''foo''), False), ((0, ''foo''), False),
         ((2, ''foo''), False)],
      getitem_cache = [], warnings = [(''foo'', ''foo'')]\<rparr>"
  by code_simp

lemma late_base_result:
  "from_lines 50 late_base_lines =
     Inr (0,
      \<lparr>heap =
        [\<lparr>bag_name = ''root'', bag_value = [], bases = [],
            children = [(''a'', 2), (''foo'', 6), (''b'', 9)]\<rparr>,
         \<lparr>bag_name = ''abstract'', bag_value = [], bases = [], children = []\<rparr>,
         \<lparr>bag_name = ''a'', bag_value = [], bases = [], children = [(''foo'', 4)]\<rparr>,
         \<lparr>bag_name = ''abstract'', bag_value = [], bases = [], children = []\<rparr>,
         \<lparr>bag_name = ''foo'', bag_value = [], bases = [], children = []\<rparr>,
         \<lparr>bag_name = ''abstract'', bag_value = [], bases = [], children = []\<rparr>,
         \<lparr>bag_name = ''foo'', bag_value = [], bases = [], children = [(''bar'', 8)]\<rparr>,
         \<lparr>bag_name = ''abstract'', bag_value = [], bases = [], children = []\<rparr>,
         \<lparr>bag_name = ''bar'', bag_value = ''1'', bases = [], children = []\<rparr>,
         \<lparr>bag_name = ''b'', bag_value = [], bases = [], children = [(''foo'', 11)]\<rparr>,
         \<lparr>bag_name = ''abstract'', bag_value = [], bases = [], children = []\<rparr>,
         \<lparr>bag_name = ''foo'', bag_value = [], bases = [], children = []\<rparr>,
         \<lparr>bag_name = ''abstract'', bag_value = [], bases = [], children = []\<rparr>],
      contains_cache =
        [((1, ''foo''), False), ((10, ''foo''), False), ((0, ''foo''), False),
         ((9, ''foo''), False), ((3, ''foo''), False), ((2, ''foo''), False)],
      getitem_cache = [],
      warnings = [(''foo'', ''foo''), (''foo'', ''foo'')]\<rparr>)"
  by code_simp

text \<open>
  Claim C3: a clause with an empty base name stands for the name of the declaration, and
  resolution binds it to a bag of that name found in an enclosing scope, never to the bag
  being defined. The name is synthesized as the claim says, and no base is ever the bag
  being defined. But the binding is missed when a scope was asked for the name before it
  received the bag, because \<open>add\<close> leaves the answers that \<open>lru_cache\<close> holds for
  \<open>__contains__\<close> in place. In the lines \<open>a\<close>, \<open>foo ::\<close>, \<open>foo\<close>, \<open>bar = 1\<close>, \<open>b\<close>,
  \<open>foo ::\<close> the first \<open>foo ::\<close> asks the root for \<open>foo\<close> and finds none. When the second
  \<open>foo ::\<close> is read, under \<open>b\<close>, the root has the child \<open>foo\<close> (address 6) and shows it,
  but its membership test still answers no: the clause is left unresolved, a second
  warning is recorded, and the new bag (address 11) has no base.
\<close>

theorem self_named_stale_divergence:
  "line_regex_match (node_text (late_base_tree ! 6)) =
     Some \<lparr>abstract = False, name = ''foo '', equals = False, value = None, inherits = [[]]\<rparr> \<and>
   inherit_names ''foo'' [[]] = [''foo''] \<and>
   map_of (children (heap before_late_base ! 0)) ''foo'' = Some 6 \<and>
   bag_name (heap before_late_base ! 6) = ''foo'' \<and>
   resolve_visible (heap before_late_base) [9, 0] [10, 1] ''foo'' = Some 6 \<and>
   map_of (contains_cache before_late_base) (0, ''foo'') = Some False \<and>
   map_sum id fst (resolve_bases 48 before_late_base [9, 0] [10, 1] ''foo'' [''foo''] []) =
     Inr [] \<and>
   map_sum id (\<lambda>r. (fst r, heap (snd r) ! 11, warnings (snd r)))
     (parse_declaration 48 late_base_tree 6 [9, 0] [10, 1] before_late_base) =
     Inr (Some 11, \<lparr>bag_name = ''foo'', bag_value = [], bases = [], children = []\<rparr>,
          [(''foo'', ''foo''), (''foo'', ''foo'')]) \<and>
   from_lines 50 late_base_lines =
     Inr (0,
      \<lparr>heap =
        [\<lparr>bag_name = ''root'', bag_value = [], bases = [],
            children = [(''a'', 2), (''foo'', 6), (''b'', 9)]\<rparr>,
         \<lparr>bag_name = ''abstract'', bag_value = [], bases = [], children = []\<rparr>,
         \<lparr>bag_name = ''a'', bag_value = [], bases = [], children = [(''foo'', 4)]\<rparr>,
         \<lparr>bag_name = ''abstract'', bag_value = [], bases = [], children = []\<rparr>,
         \<lparr>bag_name = ''foo'', bag_value = [], bases = [], children = []\<rparr>,
         \<lparr>bag_name = ''abstract'', bag_value = [], bases = [], children = []\<rparr>,
         \<lparr>bag_name = ''foo'', bag_value = [], bases = [], children = [(''bar'', 8)]\<rparr>,
         \<lparr>bag_name = ''abstract'', bag_value = [], bases = [], children = []\<rparr>,
         \<lparr>bag_name = ''bar'', bag_value = ''1'', bases = [], children = []\<rparr>,
         \<lparr>bag_name = ''b'', bag_value = [], bases = [], children = [(''foo'', 11)]\<rparr>,
         \<lparr>bag_name = ''abstract'', bag_value = [], bases = [], children = []\<rparr>,
         \<lparr>bag_name = ''foo'', bag_value = [], bases = [], children = []\<rparr>,
         \<lparr>bag_name = ''abstract'', bag_value = [], bases = [], children = []\<rparr>],
      contains_cache =
        [((1, ''foo''), False), ((10, ''foo''), False), ((0, ''foo''), False),
         ((9, ''foo''), False), ((3, ''foo''), False), ((2, ''foo''), False)],
      getitem_cache = [],
      warnings = [(''foo'', ''foo''), (''foo'', ''foo'')]\<rparr>)"
  unfolding late_base_tree_eval before_late_base_eval late_base_result by code_simp
section \<open>Clauses that cannot be resolved\<close>

subsection \<open>A membership answer of yes stays right\<close>







subsection \<open>What a bag shows when a bag is added\<close>







subsection \<open>The outcome of every clause\<close>



subsection \<open>Every declaration is read\<close>




subsection \<open>The whole tree is read\<close>




subsection \<open>A clause that names no bag\<close>





section \<open>Abstract declarations\<close>









end
